theory Spec2Isabelle
  imports Complex_Main "HOL-Library.Multiset"
begin

section \<open>Numbers of the script\<close>

text \<open>
  The script computes with JavaScript numbers. The values that occur are integers (material
  sums and the mate scores), \<open>-Infinity\<close> and \<open>Infinity\<close> (the initial search window and
  the initial running maximum), and results that are not a number. \<open>NaN\<close> stands for every
  result that is not a number: JavaScript's NaN, and a string built by \<open>+=\<close> from a
  non-numeric operand, which absorbs every later \<open>+=\<close> in the same way and which unary minus,
  multiplication and the comparisons coerce to NaN. Signed zero is not distinguished: the
  script never divides, and \<open>-0\<close> and \<open>0\<close> compare equal.
\<close>

datatype num = NaN | NegInf | Fin int | PosInf

text \<open>Unary minus.\<close>

fun neg :: "num \<Rightarrow> num" where
  "neg NaN = NaN"
| "neg NegInf = PosInf"
| "neg (Fin i) = Fin (- i)"
| "neg PosInf = NegInf"

text \<open>\<open>gt a b\<close> is \<open>a > b\<close> and \<open>ge a b\<close> is \<open>a >= b\<close>: false as soon as an operand is NaN.\<close>

fun gt :: "num \<Rightarrow> num \<Rightarrow> bool" where
  "gt NaN b = False"
| "gt a NaN = False"
| "gt NegInf b = False"
| "gt (Fin i) NegInf = True"
| "gt (Fin i) (Fin j) = (j < i)"
| "gt (Fin i) PosInf = False"
| "gt PosInf PosInf = False"
| "gt PosInf b = True"

fun ge :: "num \<Rightarrow> num \<Rightarrow> bool" where
  "ge NaN b = False"
| "ge a NaN = False"
| "ge NegInf NegInf = True"
| "ge NegInf b = False"
| "ge (Fin i) NegInf = True"
| "ge (Fin i) (Fin j) = (j \<le> i)"
| "ge (Fin i) PosInf = False"
| "ge PosInf b = True"

text \<open>Addition, subtraction and multiplication, as IEEE arithmetic defines them on these values.\<close>

fun add :: "num \<Rightarrow> num \<Rightarrow> num" where
  "add NaN b = NaN"
| "add a NaN = NaN"
| "add (Fin i) (Fin j) = Fin (i + j)"
| "add NegInf PosInf = NaN"
| "add PosInf NegInf = NaN"
| "add NegInf b = NegInf"
| "add PosInf b = PosInf"
| "add (Fin i) b = b"

definition sub :: "num \<Rightarrow> num \<Rightarrow> num" where
  "sub a b = add a (neg b)"

fun mul :: "num \<Rightarrow> num \<Rightarrow> num" where
  "mul (Fin i) (Fin j) = Fin (i * j)"
| "mul NaN b = NaN"
| "mul a NaN = NaN"
| "mul a b =
     (if a = Fin 0 \<or> b = Fin 0 then NaN
      else if gt a (Fin 0) = gt b (Fin 0) then PosInf else NegInf)"

text \<open>
  A linear order on \<open>num\<close> for the proofs: \<open>-Infinity\<close> below the integers below
  \<open>Infinity\<close>. NaN is placed at the bottom only to make the order total; the script's
  comparisons are \<open>gt\<close> and \<open>ge\<close>, which agree with the order on numbers and are false on NaN.
\<close>

instantiation num :: linorder
begin

fun less_eq_num :: "num \<Rightarrow> num \<Rightarrow> bool" where
  "less_eq_num NaN b = True"
| "less_eq_num a NaN = False"
| "less_eq_num NegInf b = True"
| "less_eq_num a NegInf = False"
| "less_eq_num (Fin i) (Fin j) = (i \<le> j)"
| "less_eq_num (Fin i) PosInf = True"
| "less_eq_num PosInf (Fin j) = False"
| "less_eq_num PosInf PosInf = True"

definition less_num :: "num \<Rightarrow> num \<Rightarrow> bool" where
  "less_num a b = (a \<le> b \<and> \<not> b \<le> a)"

instance
proof
  fix x y z :: num
  show "(x < y) = (x \<le> y \<and> \<not> y \<le> x)"
    by (simp add: less_num_def)
  show "x \<le> x"
    by (cases x) simp_all
  show "x \<le> y \<Longrightarrow> y \<le> z \<Longrightarrow> x \<le> z"
    by (cases x; cases y; cases z) simp_all
  show "x \<le> y \<Longrightarrow> y \<le> x \<Longrightarrow> x = y"
    by (cases x; cases y) simp_all
  show "x \<le> y \<or> y \<le> x"
    by (cases x; cases y) auto
qed

end

section \<open>Doubles\<close>

text \<open>
  \<open>Math.random()\<close>, the decimal literals of the strength model and the product
  \<open>Math.random() * n\<close> are IEEE 754 binary64 numbers. A finite double is modelled by the
  real number it denotes, and an operation by the exact operation followed by rounding to
  the nearest double, ties to the even significand. \<open>ulp x\<close> is the spacing of the doubles
  at the magnitude of \<open>x\<close>: 52 fraction bits below the exponent of \<open>x\<close>, and the least
  exponent \<open>-1022\<close> for the subnormal numbers. Overflow is not modelled: the operands that
  occur are below \<open>2 ^ 32\<close>.
\<close>

definition exponent :: "real \<Rightarrow> int" where
  "exponent x = max \<lfloor>log 2 \<bar>x\<bar>\<rfloor> (- 1022)"

definition ulp :: "real \<Rightarrow> real" where
  "ulp x = 2 powr (real_of_int (exponent x) - 52)"

definition round_half_even :: "real \<Rightarrow> int" where
  "round_half_even q =
     (let f = \<lfloor>q\<rfloor>
      in if q - real_of_int f < 1 / 2 \<or> (q - real_of_int f = 1 / 2 \<and> even f) then f else f + 1)"

text \<open>The double nearest to the real \<open>x\<close>, and the reals that are doubles.\<close>

definition to_double :: "real \<Rightarrow> real" where
  "to_double x = real_of_int (round_half_even (x / ulp x)) * ulp x"

definition is_double :: "real \<Rightarrow> bool" where
  "is_double x = (to_double x = x)"

section \<open>Rules engine\<close>

text \<open>
  The script consumes chess.js through the object \<open>chess\<close> (the global \<open>game\<close>). The
  library is not part of the repository, so it is a parameter: a record of the methods the
  script calls, over an arbitrary type \<open>'s\<close> of engine states. \<open>move\<close> and \<open>undo\<close> mutate
  the engine in the source and return the new state here; the queries leave it unchanged.
  The library's interface types are datatypes: a colour is \<open>'w'\<close> or \<open>'b'\<close>, a piece
  symbol is one of \<open>'p'\<close>, \<open>'n'\<close>, \<open>'b'\<close>, \<open>'r'\<close>, \<open>'q'\<close>, \<open>'k'\<close>, and \<open>board()\<close> is an
  8 by 8 array indexed by rank and file whose entries are \<open>null\<close> or a piece.
\<close>

datatype color = White | Black

datatype piece_symbol = Pawn | Knight | Bishop | Rook | Queen | King

record 's chess =
  moves :: "'s \<Rightarrow> string list"
  move :: "'s \<Rightarrow> string \<Rightarrow> 's"
  undo :: "'s \<Rightarrow> 's"
  game_over :: "'s \<Rightarrow> bool"
  in_checkmate :: "'s \<Rightarrow> bool"
  in_draw :: "'s \<Rightarrow> bool"
  in_stalemate :: "'s \<Rightarrow> bool"
  in_threefold_repetition :: "'s \<Rightarrow> bool"
  turn :: "'s \<Rightarrow> color"
  board :: "'s \<Rightarrow> nat \<Rightarrow> nat \<Rightarrow> (color \<times> piece_symbol) option"

text \<open>The strings the script sees.\<close>

fun color_str :: "color \<Rightarrow> string" where
  "color_str White = ''w''"
| "color_str Black = ''b''"

fun symbol_str :: "piece_symbol \<Rightarrow> string" where
  "symbol_str Pawn = ''p''"
| "symbol_str Knight = ''n''"
| "symbol_str Bishop = ''b''"
| "symbol_str Rook = ''r''"
| "symbol_str Queen = ''q''"
| "symbol_str King = ''k''"

text \<open>A piece as the script reads it: the object \<open>{ type, color }\<close>.\<close>

record piece =
  type :: string
  color :: string

definition js_board ::
  "(nat \<Rightarrow> nat \<Rightarrow> (color \<times> piece_symbol) option) \<Rightarrow> nat \<Rightarrow> nat \<Rightarrow> piece option" where
  "js_board b r f =
     map_option (\<lambda>(c, t). \<lparr>type = symbol_str t, color = color_str c\<rparr>) (b r f)"

text \<open>
  The contract of \<open>undo\<close>: it takes back the most recent \<open>move\<close>. It is stated for the
  moves the engine lists, the only ones the script plays.
\<close>

definition undo_restores :: "'s chess \<Rightarrow> bool" where
  "undo_restores chess = (\<forall>s. \<forall>m \<in> set (moves chess s). undo chess (move chess s m) = s)"

section \<open>Evaluator\<close>

text \<open>
  \<open>pieceValue[k]\<close> is a property read on an object literal. The literal has the six own
  properties below and inherits the properties of \<open>Object.prototype\<close>, whose values are
  functions and objects; any other key reads \<open>undefined\<close>.
\<close>

datatype jsval = Undefined | Number num | Object

definition Object_prototype :: "string list" where
  "Object_prototype =
     [''constructor'', ''hasOwnProperty'', ''isPrototypeOf'', ''propertyIsEnumerable'',
      ''toLocaleString'', ''toString'', ''valueOf'', ''__proto__'', ''__defineGetter__'',
      ''__defineSetter__'', ''__lookupGetter__'', ''__lookupSetter__'']"

definition pieceValue :: "string \<Rightarrow> jsval" where
  "pieceValue k =
     (if k = ''p'' then Number (Fin 100)
      else if k = ''n'' then Number (Fin 320)
      else if k = ''b'' then Number (Fin 330)
      else if k = ''r'' then Number (Fin 500)
      else if k = ''q'' then Number (Fin 900)
      else if k = ''k'' then Number (Fin 20000)
      else if k \<in> set Object_prototype then Object
      else Undefined)"

text \<open>\<open>a || b\<close>: \<open>a\<close> when it is truthy, else \<open>b\<close>.\<close>

fun truthy :: "jsval \<Rightarrow> bool" where
  "truthy Undefined = False"
| "truthy (Number n) = (n \<noteq> NaN \<and> n \<noteq> Fin 0)"
| "truthy Object = True"

definition or_else :: "jsval \<Rightarrow> jsval \<Rightarrow> jsval" where
  "or_else a b = (if truthy a then a else b)"

text \<open>Unary minus converts its operand to a number first.\<close>

fun to_number :: "jsval \<Rightarrow> num" where
  "to_number Undefined = NaN"
| "to_number (Number n) = n"
| "to_number Object = NaN"

text \<open>
  \<open>value += x\<close>: a sum of numbers, and not a number as soon as \<open>x\<close> is a function, an
  object or \<open>undefined\<close> (the first two turn \<open>value\<close> into a string).
\<close>

fun plus_assign :: "num \<Rightarrow> jsval \<Rightarrow> num" where
  "plus_assign a (Number n) = add a n"
| "plus_assign a Undefined = NaN"
| "plus_assign a Object = NaN"

text \<open>The body of the inner loop for a square that holds \<open>piece\<close>.\<close>

definition add_piece :: "num \<Rightarrow> piece \<Rightarrow> num" where
  "add_piece value piece =
     (let v = or_else (pieceValue (type piece)) (Number (Fin 0))
      in plus_assign value (if color piece = ''w'' then v else Number (neg (to_number v))))"

text \<open>The two loops over ranks and files \<open>0, \<dots>, 7\<close>, from \<open>value = 0\<close>.\<close>

definition material :: "(nat \<Rightarrow> nat \<Rightarrow> piece option) \<Rightarrow> num" where
  "material b =
     fold (\<lambda>r. fold (\<lambda>f value. case b r f of None \<Rightarrow> value | Some piece \<Rightarrow> add_piece value piece)
                  [0..<8])
       [0..<8] (Fin 0)"

definition evaluateBoard :: "'s chess \<Rightarrow> 's \<Rightarrow> num" where
  "evaluateBoard chess s =
     (if in_checkmate chess s then
        (if color_str (turn chess s) = ''w'' then Fin (- 999999) else Fin 999999)
      else if in_draw chess s \<or> in_stalemate chess s \<or> in_threefold_repetition chess s then Fin 0
      else material (js_board (board chess s)))"

text \<open>
  The table of the specification, on the engine's piece symbols, and the material sum it
  describes: over the 64 squares, the worth of each piece, added for White and subtracted
  for Black. The evaluator is compared with it below.
\<close>

fun piece_worth :: "piece_symbol \<Rightarrow> int" where
  "piece_worth Pawn = 100"
| "piece_worth Knight = 320"
| "piece_worth Bishop = 330"
| "piece_worth Rook = 500"
| "piece_worth Queen = 900"
| "piece_worth King = 20000"

definition material_sum :: "(nat \<Rightarrow> nat \<Rightarrow> (color \<times> piece_symbol) option) \<Rightarrow> int" where
  "material_sum b =
     (\<Sum>r<8. \<Sum>f<8. case b r f of None \<Rightarrow> 0
        | Some (c, t) \<Rightarrow> if c = White then piece_worth t else - piece_worth t)"



section \<open>Move orderer\<close>

text \<open>
  \<open>Array.prototype.sort(cmp)\<close>. ECMAScript (2019 and later) requires the sort to be stable,
  and for a consistent comparator the sorted array is then unique. The model is insertion
  sort from the right: an element is moved behind a later one only when \<open>cmp\<close> of the two
  is positive.
\<close>

fun insert_sorted :: "('a \<Rightarrow> 'a \<Rightarrow> num) \<Rightarrow> 'a \<Rightarrow> 'a list \<Rightarrow> 'a list" where
  "insert_sorted cmp x [] = [x]"
| "insert_sorted cmp x (y # ys) =
     (if gt (cmp x y) (Fin 0) then y # insert_sorted cmp x ys else x # y # ys)"

definition js_sort :: "('a \<Rightarrow> 'a \<Rightarrow> num) \<Rightarrow> 'a list \<Rightarrow> 'a list" where
  "js_sort cmp xs = foldr (insert_sorted cmp) xs []"

text \<open>\<open>a.includes('x') ? 1 : 0\<close>.\<close>

definition isCap :: "string \<Rightarrow> int" where
  "isCap a = (if CHR ''x'' \<in> set a then 1 else 0)"

definition orderMoves :: "string list \<Rightarrow> string list" where
  "orderMoves movesList = js_sort (\<lambda>a b. Fin (isCap b - isCap a)) movesList"

section \<open>Search\<close>

definition switchColor :: "string \<Rightarrow> string" where
  "switchColor c = (if c = ''w'' then ''b'' else ''w'')"

text \<open>
  \<open>negamax\<close> returns the score and the engine state it leaves behind. \<open>depth\<close> is a natural
  number: the search is entered with \<open>maxDepth - 1\<close> for a positive \<open>maxDepth\<close> and recurses
  on \<open>depth - 1\<close> only when \<open>depth\<close> is not 0. \<open>negamax_loop\<close> is the \<open>for\<close> loop over the
  sorted moves that are left, with the depth \<open>d = depth - 1\<close> of the children and the
  current \<open>max\<close> and \<open>alpha\<close>; the sort inside \<open>negamax\<close> uses the comparator of
  \<open>orderMoves\<close>.
\<close>

fun negamax :: "'s chess \<Rightarrow> 's \<Rightarrow> nat \<Rightarrow> num \<Rightarrow> num \<Rightarrow> string \<Rightarrow> num \<times> 's"
  and negamax_loop ::
    "'s chess \<Rightarrow> 's \<Rightarrow> nat \<Rightarrow> string list \<Rightarrow> num \<Rightarrow> num \<Rightarrow> num \<Rightarrow> string \<Rightarrow> num \<times> 's"
where
  "negamax chess s depth alpha beta perspectiveColor =
     (if depth = 0 \<or> game_over chess s then
        (let evalScore = evaluateBoard chess s
         in (if perspectiveColor = ''w'' then evalScore else neg evalScore, s))
      else negamax_loop chess s (depth - 1) (orderMoves (moves chess s)) NegInf alpha beta
             perspectiveColor)"
| "negamax_loop chess s d [] max' alpha beta perspectiveColor = (max', s)"
| "negamax_loop chess s d (m # ms) max' alpha beta perspectiveColor =
     (let (r, s1) = negamax chess (move chess s m) d (neg beta) (neg alpha) perspectiveColor;
          score = neg r;
          s2 = undo chess s1;
          max' = (if gt score max' then score else max');
          alpha = (if gt max' alpha then max' else alpha)
      in if ge alpha beta then (max', s2)
         else negamax_loop chess s2 d ms max' alpha beta perspectiveColor)"

text \<open>
  The reference for the pruning: the same search with no window and no cutoff. Every move
  of every node is searched, on the positions \<open>move\<close> produces; leaves are scored as
  \<open>negamax\<close> scores them and moves are ordered as \<open>negamax\<close> orders them.
\<close>

fun fullwidth :: "'s chess \<Rightarrow> 's \<Rightarrow> nat \<Rightarrow> string \<Rightarrow> num"
  and fullwidth_loop :: "'s chess \<Rightarrow> 's \<Rightarrow> nat \<Rightarrow> string list \<Rightarrow> num \<Rightarrow> string \<Rightarrow> num"
where
  "fullwidth chess s depth perspectiveColor =
     (if depth = 0 \<or> game_over chess s then
        (let evalScore = evaluateBoard chess s
         in if perspectiveColor = ''w'' then evalScore else neg evalScore)
      else fullwidth_loop chess s (depth - 1) (orderMoves (moves chess s)) NegInf
             perspectiveColor)"
| "fullwidth_loop chess s d [] max' perspectiveColor = max'"
| "fullwidth_loop chess s d (m # ms) max' perspectiveColor =
     (let score = neg (fullwidth chess (move chess s m) d perspectiveColor)
      in fullwidth_loop chess s d ms (if gt score max' then score else max') perspectiveColor)"

text \<open>
  The recursion as the specification words it, for comparison: each child is searched from
  the opposite perspective. It differs from \<open>negamax\<close> in the argument
  \<open>switchColor perspectiveColor\<close> of the recursive call and in nothing else.
\<close>

fun negamax_alternating :: "'s chess \<Rightarrow> 's \<Rightarrow> nat \<Rightarrow> num \<Rightarrow> num \<Rightarrow> string \<Rightarrow> num \<times> 's"
  and negamax_alternating_loop ::
    "'s chess \<Rightarrow> 's \<Rightarrow> nat \<Rightarrow> string list \<Rightarrow> num \<Rightarrow> num \<Rightarrow> num \<Rightarrow> string \<Rightarrow> num \<times> 's"
where
  "negamax_alternating chess s depth alpha beta perspectiveColor =
     (if depth = 0 \<or> game_over chess s then
        (let evalScore = evaluateBoard chess s
         in (if perspectiveColor = ''w'' then evalScore else neg evalScore, s))
      else negamax_alternating_loop chess s (depth - 1) (orderMoves (moves chess s)) NegInf
             alpha beta perspectiveColor)"
| "negamax_alternating_loop chess s d [] max' alpha beta perspectiveColor = (max', s)"
| "negamax_alternating_loop chess s d (m # ms) max' alpha beta perspectiveColor =
     (let (r, s1) = negamax_alternating chess (move chess s m) d (neg beta) (neg alpha)
                      (switchColor perspectiveColor);
          score = neg r;
          s2 = undo chess s1;
          max' = (if gt score max' then score else max');
          alpha = (if gt max' alpha then max' else alpha)
      in if ge alpha beta then (max', s2)
         else negamax_alternating_loop chess s2 d ms max' alpha beta perspectiveColor)"

text \<open>The object \<open>{ move: bestMove, score: bestScore }\<close>; \<open>null\<close> is \<open>None\<close>.\<close>

record searchResult =
  best_move :: "string option"
  best_score :: num

fun getBestMove_loop ::
  "'s chess \<Rightarrow> 's \<Rightarrow> nat \<Rightarrow> string \<Rightarrow> string list \<Rightarrow> string option \<Rightarrow> num
    \<Rightarrow> searchResult \<times> 's"
where
  "getBestMove_loop chess s maxDepth aiColor [] bestMove bestScore =
     (\<lparr>best_move = bestMove, best_score = bestScore\<rparr>, s)"
| "getBestMove_loop chess s maxDepth aiColor (mv # rest) bestMove bestScore =
     (let (r, s1) = negamax chess (move chess s mv) (maxDepth - 1) NegInf PosInf
                      (switchColor aiColor);
          score = neg r;
          s2 = undo chess s1
      in if gt score bestScore
         then getBestMove_loop chess s2 maxDepth aiColor rest (Some mv) score
         else getBestMove_loop chess s2 maxDepth aiColor rest bestMove bestScore)"

text \<open>
  \<open>maxDepth\<close> is the positive depth of the strength model; for \<open>maxDepth = 0\<close> the source
  would enter \<open>negamax\<close> with \<open>-1\<close>, which is outside this model, and the results below
  assume \<open>0 < maxDepth\<close>.
\<close>

definition getBestMove :: "'s chess \<Rightarrow> 's \<Rightarrow> nat \<Rightarrow> string \<Rightarrow> searchResult option \<times> 's" where
  "getBestMove chess s maxDepth aiColor =
     (let ms = moves chess s
      in if length ms = 0 then (None, s)
         else (let ordered = orderMoves ms;
                   (best, s') = getBestMove_loop chess s maxDepth aiColor ordered None NegInf
               in (Some best, s')))"

section \<open>Strength model\<close>

text \<open>
  \<open>eloToParams\<close> returns the object \<open>{ depth, randomness }\<close>. The decimal literals are kept as
  the rationals they denote; the double that the script holds is \<open>to_double\<close> of it, taken
  where the value is compared. The initial values \<open>depth = 2\<close>, \<open>randomness = 0.25\<close> of the source
  are overwritten on every path of the cascade, so the cascade alone is the function.
\<close>

record params =
  depth :: nat
  randomness :: real

definition eloToParams :: "int \<Rightarrow> params" where
  "eloToParams elo =
     (if elo < 900 then \<lparr>depth = 1, randomness = 0.7\<rparr>
      else if elo < 1100 then \<lparr>depth = 2, randomness = 0.5\<rparr>
      else if elo < 1400 then \<lparr>depth = 2, randomness = 0.35\<rparr>
      else if elo < 1700 then \<lparr>depth = 3, randomness = 0.2\<rparr>
      else if elo < 2000 then \<lparr>depth = 4, randomness = 0.12\<rparr>
      else if elo < 2300 then \<lparr>depth = 5, randomness = 0.06\<rparr>
      else \<lparr>depth = 6, randomness = 0.02\<rparr>)"

section \<open>Move selector\<close>

text \<open>The object \<open>{ move: mv, score: sc }\<close> of the shallow evaluation.\<close>

record scoredMove =
  scored_move :: string
  scored_score :: num

fun scoreMoves ::
  "'s chess \<Rightarrow> 's \<Rightarrow> string \<Rightarrow> string list \<Rightarrow> scoredMove list \<Rightarrow> scoredMove list \<times> 's"
where
  "scoreMoves chess game perspective [] scored = (scored, game)"
| "scoreMoves chess game perspective (mv # rest) scored =
     (let g1 = move chess game mv;
          sc = mul (evaluateBoard chess g1) (if perspective = ''w'' then Fin 1 else Fin (- 1));
          g2 = undo chess g1
      in scoreMoves chess g2 perspective rest (scored @ [\<lparr>scored_move = mv, scored_score = sc\<rparr>]))"

text \<open>
  \<open>Math.floor(Math.random() * n)\<close> for a draw \<open>u\<close>. \<open>Math.random()\<close> returns a double
  \<open>u\<close> with \<open>0 \<le> u < 1\<close>; \<open>n\<close> is an array length, which is a double exactly; the product
  is the double product, so it is rounded before the floor is taken.
\<close>

definition random_index :: "real \<Rightarrow> nat \<Rightarrow> nat" where
  "random_index u n = nat \<lfloor>to_double (u * real n)\<rfloor>"

text \<open>
  The blunder branch: the shallow evaluation of every legal move, the sort by descending
  score, and the pick among the first \<open>k\<close> entries. It returns the picked move and the
  engine state after the evaluations.
\<close>

definition blunderMove :: "'s chess \<Rightarrow> 's \<Rightarrow> string \<Rightarrow> string list \<Rightarrow> real \<Rightarrow> string \<times> 's" where
  "blunderMove chess game perspective ms u =
     (let k = min 4 (length ms);
          (scored, game') = scoreMoves chess game perspective ms [];
          sorted = js_sort (\<lambda>a b. sub (scored_score b) (scored_score a)) scored;
          pick = scored_move (sorted ! random_index u (min k (length sorted)))
      in (pick, game'))"

text \<open>
  \<open>makeAIMove\<close> acts on the global \<open>game\<close>; the model returns the new state of the engine
  and leaves out the updates of the page. \<open>elo\<close> is the integer read from the slider,
  \<open>aiSide\<close> the value of the side selector, and \<open>random i\<close> the result of the \<open>i\<close>-th call
  of \<open>Math.random()\<close> in this run, each a double in \<open>[0, 1)\<close>. The blunder test compares
  the first draw with the double \<open>params.randomness\<close>.
\<close>

definition makeAIMove :: "'s chess \<Rightarrow> 's \<Rightarrow> int \<Rightarrow> string \<Rightarrow> (nat \<Rightarrow> real) \<Rightarrow> 's" where
  "makeAIMove chess game elo aiSide random =
     (if game_over chess game then game
      else
        (let params = eloToParams elo;
             aiColor = (if aiSide = ''white'' then ''w'' else ''b'');
             perspective = aiColor;
             ms = moves chess game
         in if length ms = 0 then game
            else
              (let (best, game1) = getBestMove chess game (depth params) perspective
               in if best = None \<or> best_move (the best) = None \<or> best_move (the best) = Some []
                  then move chess game1 (ms ! random_index (random 0) (length ms))
                  else if random 0 < to_double (randomness params)
                  then (let (pick, game2) = blunderMove chess game1 perspective ms (random 1)
                        in move chess game2 pick)
                  else move chess game1 (the (best_move (the best))))))"

section \<open>Contracts and reference notions\<close>

text \<open>
  The engine reports a position as over whenever it has no legal move: the precondition
  under which a search node without moves is a leaf.
\<close>

definition reports_terminal :: "'s chess \<Rightarrow> bool" where
  "reports_terminal chess = (\<forall>s. moves chess s = [] \<longrightarrow> game_over chess s)"

text \<open>
  What a search with the window \<open>(a, b)\<close> may return for a node whose full-width score
  is \<open>v\<close>: a result at or below \<open>a\<close> is an upper bound of \<open>v\<close>, a result at or above
  \<open>b\<close> is a lower bound, and a result strictly inside the window is \<open>v\<close> itself.
\<close>

definition fail_soft :: "num \<Rightarrow> num \<Rightarrow> num \<Rightarrow> num \<Rightarrow> bool" where
  "fail_soft a b v r =
     ((r \<le> a \<longrightarrow> v \<le> r) \<and> (a < r \<and> r < b \<longrightarrow> r = v) \<and> (b \<le> r \<longrightarrow> r \<le> v))"

text \<open>
  The one-ply shallow score of a move: the evaluation of the position after the move,
  multiplied by \<open>1\<close> for the perspective \<open>'w'\<close> and by \<open>-1\<close> otherwise; and the entry
  \<open>{ move, score }\<close> that carries it.
\<close>

definition shallowScore :: "'s chess \<Rightarrow> 's \<Rightarrow> string \<Rightarrow> string \<Rightarrow> num" where
  "shallowScore chess game perspective mv =
     mul (evaluateBoard chess (move chess game mv)) (if perspective = ''w'' then Fin 1 else Fin (- 1))"

definition shallowEntry :: "'s chess \<Rightarrow> 's \<Rightarrow> string \<Rightarrow> string \<Rightarrow> scoredMove" where
  "shallowEntry chess game perspective mv =
     \<lparr>scored_move = mv, scored_score = shallowScore chess game perspective mv\<rparr>"

section \<open>A small engine\<close>

text \<open>
  A rules engine with six positions, used to run the definitions. A state is the list
  of the moves played, the last one first. White starts with king and pawn against king and
  pawn and may play \<open>e4\<close> or capture with \<open>exd5\<close>; after \<open>e4\<close> Black may play \<open>Nf6\<close> or
  \<open>dxe4\<close>, which mates; after \<open>exd5\<close> Black has \<open>Kd8\<close>, which draws. The game is over
  after two moves.
\<close>

definition toy_moves :: "string list \<Rightarrow> string list" where
  "toy_moves s =
     (case s of
        [] \<Rightarrow> [''e4'', ''exd5'']
      | [m] \<Rightarrow> if m = ''e4'' then [''Nf6'', ''dxe4''] else [''Kd8'']
      | _ \<Rightarrow> [])"

definition toy_board :: "string list \<Rightarrow> nat \<Rightarrow> nat \<Rightarrow> (color \<times> piece_symbol) option" where
  "toy_board s r f =
     (if r = 0 \<and> f = 4 then Some (Black, King)
      else if r = 7 \<and> f = 4 then Some (White, King)
      else if r = 3 \<and> f = 3 \<and> ''exd5'' \<notin> set s \<and> ''dxe4'' \<notin> set s then Some (Black, Pawn)
      else if r = 4 \<and> f = 4 \<and> ''dxe4'' \<in> set s then Some (Black, Pawn)
      else if r = 6 \<and> f = 4 \<and> s = [] then Some (White, Pawn)
      else if r = 4 \<and> f = 4 \<and> ''e4'' \<in> set s \<and> ''dxe4'' \<notin> set s then Some (White, Pawn)
      else if r = 3 \<and> f = 3 \<and> ''exd5'' \<in> set s then Some (White, Pawn)
      else None)"

definition toy :: "string list chess" where
  "toy =
     \<lparr>moves = toy_moves,
      move = (\<lambda>s m. m # s),
      undo = tl,
      game_over = (\<lambda>s. 2 \<le> length s),
      in_checkmate = (\<lambda>s. s = [''dxe4'', ''e4'']),
      in_draw = (\<lambda>s. s = [''Kd8'', ''exd5'']),
      in_stalemate = (\<lambda>s. False),
      in_threefold_repetition = (\<lambda>s. False),
      turn = (\<lambda>s. if even (length s) then White else Black),
      board = toy_board\<rparr>"

text \<open>The same engine with a terminal test that never fires.\<close>

definition toy_open :: "string list chess" where
  "toy_open = toy\<lparr>game_over := (\<lambda>s. False)\<rparr>"

section \<open>Results about the strength model\<close>

text \<open>
  C4. \<open>eloToParams\<close> is a total function of the integer \<open>elo\<close> and returns the pair of the
  band \<open>elo\<close> lies in: each band includes its lower bound and excludes its upper bound, the
  lowest and the highest band are unbounded. As \<open>elo\<close> grows the depth never decreases and
  the blunder probability never increases.
\<close>

theorem eloToParams_bands_monotone:
  "(elo < 900 \<longrightarrow> eloToParams elo = \<lparr>depth = 1, randomness = 0.7\<rparr>) \<and>
   (900 \<le> elo \<and> elo < 1100 \<longrightarrow> eloToParams elo = \<lparr>depth = 2, randomness = 0.5\<rparr>) \<and>
   (1100 \<le> elo \<and> elo < 1400 \<longrightarrow> eloToParams elo = \<lparr>depth = 2, randomness = 0.35\<rparr>) \<and>
   (1400 \<le> elo \<and> elo < 1700 \<longrightarrow> eloToParams elo = \<lparr>depth = 3, randomness = 0.2\<rparr>) \<and>
   (1700 \<le> elo \<and> elo < 2000 \<longrightarrow> eloToParams elo = \<lparr>depth = 4, randomness = 0.12\<rparr>) \<and>
   (2000 \<le> elo \<and> elo < 2300 \<longrightarrow> eloToParams elo = \<lparr>depth = 5, randomness = 0.06\<rparr>) \<and>
   (2300 \<le> elo \<longrightarrow> eloToParams elo = \<lparr>depth = 6, randomness = 0.02\<rparr>) \<and>
   (elo \<le> elo' \<longrightarrow>
      depth (eloToParams elo) \<le> depth (eloToParams elo') \<and>
      randomness (eloToParams elo') \<le> randomness (eloToParams elo))"
proof -
  have bands: "(elo < 900 \<longrightarrow> eloToParams elo = \<lparr>depth = 1, randomness = 0.7\<rparr>) \<and>
   (900 \<le> elo \<and> elo < 1100 \<longrightarrow> eloToParams elo = \<lparr>depth = 2, randomness = 0.5\<rparr>) \<and>
   (1100 \<le> elo \<and> elo < 1400 \<longrightarrow> eloToParams elo = \<lparr>depth = 2, randomness = 0.35\<rparr>) \<and>
   (1400 \<le> elo \<and> elo < 1700 \<longrightarrow> eloToParams elo = \<lparr>depth = 3, randomness = 0.2\<rparr>) \<and>
   (1700 \<le> elo \<and> elo < 2000 \<longrightarrow> eloToParams elo = \<lparr>depth = 4, randomness = 0.12\<rparr>) \<and>
   (2000 \<le> elo \<and> elo < 2300 \<longrightarrow> eloToParams elo = \<lparr>depth = 5, randomness = 0.06\<rparr>) \<and>
   (2300 \<le> elo \<longrightarrow> eloToParams elo = \<lparr>depth = 6, randomness = 0.02\<rparr>)"
    by (simp add: eloToParams_def)
  have mono: "elo \<le> elo' \<longrightarrow>
      depth (eloToParams elo) \<le> depth (eloToParams elo') \<and>
      randomness (eloToParams elo') \<le> randomness (eloToParams elo)"
    by (simp add: eloToParams_def)
  from bands mono show ?thesis by blast
qed

theorem eloToParams_bands_monotone_witness:
  "eloToParams 500 = \<lparr>depth = 1, randomness = 0.7\<rparr> \<and>
   eloToParams 900 = \<lparr>depth = 2, randomness = 0.5\<rparr> \<and>
   eloToParams 1399 = \<lparr>depth = 2, randomness = 0.35\<rparr> \<and>
   eloToParams 1400 = \<lparr>depth = 3, randomness = 0.2\<rparr> \<and>
   eloToParams 1999 = \<lparr>depth = 4, randomness = 0.12\<rparr> \<and>
   eloToParams 2000 = \<lparr>depth = 5, randomness = 0.06\<rparr> \<and>
   eloToParams 2500 = \<lparr>depth = 6, randomness = 0.02\<rparr> \<and>
   depth (eloToParams 500) \<le> depth (eloToParams 2500) \<and>
   randomness (eloToParams 2500) \<le> randomness (eloToParams 500)"
  using eloToParams_bands_monotone [of 500 2500]
    eloToParams_bands_monotone [of 900 900]
    eloToParams_bands_monotone [of 1399 1399]
    eloToParams_bands_monotone [of 1400 1400]
    eloToParams_bands_monotone [of 1999 1999]
    eloToParams_bands_monotone [of 2000 2000]
    eloToParams_bands_monotone [of 2500 2500]
  by simp

section \<open>Results about the evaluator\<close>

lemma upt8: "[0..<8] = [0, 1, 2, 3, 4, 5, 6, 7]"
  by (simp add: upt_rec)

lemma add_piece_typed:
  "add_piece (Fin a) \<lparr>type = symbol_str t, color = color_str c\<rparr> =
     Fin (a + (if c = White then piece_worth t else - piece_worth t))"
  by (cases t; cases c) (simp_all add: add_piece_def pieceValue_def or_else_def)

lemma fold_Fin:
  assumes "\<And>x a. step x (Fin a) = Fin (a + g x)"
  shows "fold step xs (Fin a) = Fin (a + sum_list (map g xs))"
  using assms by (induction xs arbitrary: a) (simp_all add: algebra_simps)

lemma material_typed: "material (js_board b) = Fin (material_sum b)"
proof -
  let ?w = "\<lambda>r f. case b r f of None \<Rightarrow> 0
        | Some (c, t) \<Rightarrow> if c = White then piece_worth t else - piece_worth t"
  have inner: "\<And>r a. fold (\<lambda>f value. case js_board b r f of None \<Rightarrow> value
                | Some piece \<Rightarrow> add_piece value piece) [0..<8] (Fin a)
           = Fin (a + sum_list (map (?w r) [0..<8]))"
    by (rule fold_Fin) (simp add: js_board_def add_piece_typed split: option.split prod.split)
  have "material (js_board b) =
          Fin (0 + sum_list (map (\<lambda>r. sum_list (map (?w r) [0..<8])) [0..<8]))"
    unfolding material_def by (rule fold_Fin) (rule inner)
  also have "0 + sum_list (map (\<lambda>r. sum_list (map (?w r) [0..<8])) [0..<8]) = material_sum b"
    by (simp add: material_sum_def interv_sum_list_conv_sum_set_nat atLeast0LessThan
          del: upt_Suc)
  finally show ?thesis .
qed

lemma evaluateBoard_Fin: "\<exists>n. evaluateBoard chess s = Fin n"
  by (simp add: evaluateBoard_def material_typed)

lemmas toy_eval =
  evaluateBoard_def toy_def toy_moves_def toy_board_def material_def upt8
  js_board_def add_piece_def pieceValue_def or_else_def orderMoves_def js_sort_def isCap_def

text \<open>
  C3. \<open>evaluateBoard\<close> tests checkmate first: a mated position is worth \<open>999999\<close> when
  Black is to move and \<open>-999999\<close> when White is to move. A position that is not mate and is
  a draw, a stalemate or a threefold repetition is worth \<open>0\<close>. Every other position is
  worth the material sum of its board: over all pieces, 100 for a pawn, 320 for a knight,
  330 for a bishop, 500 for a rook, 900 for a queen and 20000 for a king, added for a white
  piece and subtracted for a black one.
\<close>

theorem evaluateBoard_cases:
  "(in_checkmate chess s \<and> turn chess s = Black \<longrightarrow> evaluateBoard chess s = Fin 999999) \<and>
   (in_checkmate chess s \<and> turn chess s = White \<longrightarrow> evaluateBoard chess s = Fin (- 999999)) \<and>
   (\<not> in_checkmate chess s \<and>
      (in_draw chess s \<or> in_stalemate chess s \<or> in_threefold_repetition chess s) \<longrightarrow>
      evaluateBoard chess s = Fin 0) \<and>
   (\<not> in_checkmate chess s \<and> \<not> in_draw chess s \<and> \<not> in_stalemate chess s \<and>
      \<not> in_threefold_repetition chess s \<longrightarrow>
      evaluateBoard chess s = Fin (material_sum (board chess s)))"
  by (simp add: evaluateBoard_def material_typed)

theorem evaluateBoard_cases_witness:
  "evaluateBoard (toy\<lparr>turn := (\<lambda>s. Black)\<rparr>) [''dxe4'', ''e4''] = Fin 999999 \<and>
   evaluateBoard toy [''dxe4'', ''e4''] = Fin (- 999999) \<and>
   evaluateBoard toy [''Kd8'', ''exd5''] = Fin 0 \<and>
   evaluateBoard toy [''exd5''] = Fin (material_sum (board toy [''exd5''])) \<and>
   material_sum (board toy [''exd5'']) = 100"
proof -
  have direct: "evaluateBoard toy [''exd5''] = Fin 100"
    by (simp add: toy_eval)
  show ?thesis
    using evaluateBoard_cases [of "toy\<lparr>turn := (\<lambda>s. Black)\<rparr>" "[''dxe4'', ''e4'']"]
      evaluateBoard_cases [of toy "[''dxe4'', ''e4'']"]
      evaluateBoard_cases [of toy "[''Kd8'', ''exd5'']"]
      evaluateBoard_cases [of toy "[''exd5'']"]
      direct
    by (simp add: toy_def)
qed


section \<open>Results about the move orderer\<close>

lemma insert_sorted_mset: "mset (insert_sorted cmp x ys) = add_mset x (mset ys)"
  by (induction ys) simp_all

lemma js_sort_mset: "mset (js_sort cmp xs) = mset xs"
  by (induction xs) (simp_all add: js_sort_def insert_sorted_mset)

lemma js_sort_Cons: "js_sort cmp (x # xs) = insert_sorted cmp x (js_sort cmp xs)"
  by (simp add: js_sort_def)

lemma js_sort_Nil: "js_sort cmp [] = []"
  by (simp add: js_sort_def)

lemma insert_sorted_pass:
  assumes "\<forall>y \<in> set cs. gt (cmp x y) (Fin 0)"
  shows "insert_sorted cmp x (cs @ ns) = cs @ insert_sorted cmp x ns"
  using assms by (induction cs) simp_all

lemma insert_sorted_stop:
  assumes "\<forall>y \<in> set ns. \<not> gt (cmp x y) (Fin 0)"
  shows "insert_sorted cmp x ns = x # ns"
  using assms by (cases ns) simp_all

lemma orderMoves_partition:
  "orderMoves ms = filter (\<lambda>m. CHR ''x'' \<in> set m) ms @ filter (\<lambda>m. CHR ''x'' \<notin> set m) ms"
proof (induction ms)
  case Nil
  then show ?case by (simp add: orderMoves_def js_sort_Nil)
next
  case (Cons m ms)
  let ?cmp = "\<lambda>a b. Fin (isCap b - isCap a)"
  let ?cs = "filter (\<lambda>m. CHR ''x'' \<in> set m) ms"
  let ?ns = "filter (\<lambda>m. CHR ''x'' \<notin> set m) ms"
  have step: "orderMoves (m # ms) = insert_sorted ?cmp m (?cs @ ?ns)"
    using Cons.IH by (simp add: orderMoves_def js_sort_Cons)
  show ?case
  proof (cases "CHR ''x'' \<in> set m")
    case True
    then have "\<forall>y \<in> set (?cs @ ?ns). \<not> gt (?cmp m y) (Fin 0)"
      by (simp add: isCap_def)
    then have "insert_sorted ?cmp m (?cs @ ?ns) = m # ?cs @ ?ns"
      by (rule insert_sorted_stop)
    with step True show ?thesis by simp
  next
    case False
    then have "\<forall>y \<in> set ?cs. gt (?cmp m y) (Fin 0)"
      by (simp add: isCap_def)
    then have "insert_sorted ?cmp m (?cs @ ?ns) = ?cs @ insert_sorted ?cmp m ?ns"
      by (rule insert_sorted_pass)
    moreover from False have "\<forall>y \<in> set ?ns. \<not> gt (?cmp m y) (Fin 0)"
      by (simp add: isCap_def)
    then have "insert_sorted ?cmp m ?ns = m # ?ns"
      by (rule insert_sorted_stop)
    ultimately show ?thesis using step False by simp
  qed
qed

lemma orderMoves_Nil: "orderMoves [] = []"
  by (simp add: orderMoves_def js_sort_Nil)

lemma orderMoves_set: "set (orderMoves ms) = set ms"
  by (auto simp: orderMoves_partition)

lemma orderMoves_Nil_iff: "orderMoves ms = [] \<longleftrightarrow> ms = []"
  by (metis orderMoves_set set_empty)

text \<open>
  C8. \<open>orderMoves\<close> returns a permutation of its input (the same multiset of moves) in
  which the moves that contain the capture marker \<open>x\<close> come first, each group in the order
  it has in the input: the result is the captures of the input, in order, followed by the
  other moves, in order.
\<close>

theorem orderMoves_stable:
  "mset (orderMoves ms) = mset ms \<and>
   orderMoves ms = filter (\<lambda>m. CHR ''x'' \<in> set m) ms @ filter (\<lambda>m. CHR ''x'' \<notin> set m) ms"
  using orderMoves_partition [of ms] by (simp add: orderMoves_def js_sort_mset)

theorem orderMoves_stable_witness:
  "mset (orderMoves [''e4'', ''exd5'', ''Nf3'', ''Bxc6'', ''a3''])
     = mset [''e4'', ''exd5'', ''Nf3'', ''Bxc6'', ''a3''] \<and>
   orderMoves [''e4'', ''exd5'', ''Nf3'', ''Bxc6'', ''a3'']
     = [''exd5'', ''Bxc6'', ''e4'', ''Nf3'', ''a3'']"
  using orderMoves_stable [of "[''e4'', ''exd5'', ''Nf3'', ''Bxc6'', ''a3'']"]
  by simp

section \<open>Results about the search\<close>

declare negamax.simps [simp del]

lemma undo_move: "undo_restores chess \<Longrightarrow> m \<in> set (moves chess s) \<Longrightarrow> undo chess (move chess s m) = s"
  by (simp add: undo_restores_def)

lemma negamax_state:
  shows "undo_restores chess \<Longrightarrow> snd (negamax chess s d a b p) = s"
    and "undo_restores chess \<Longrightarrow> set ms \<subseteq> set (moves chess s) \<Longrightarrow>
           snd (negamax_loop chess s d ms mx a b p) = s"
proof (induction chess s d a b p and chess s d ms mx a b p rule: negamax_negamax_loop.induct)
  case (1 chess s depth alpha beta perspectiveColor)
  then show ?case
    by (simp add: negamax.simps [of chess s depth] orderMoves_set Let_def)
next
  case (2 chess s d max' alpha beta perspectiveColor)
  then show ?case by simp
next
  case (3 chess s d m ms max' alpha beta perspectiveColor)
  obtain r s1 where call:
    "negamax chess (move chess s m) d (neg beta) (neg alpha) perspectiveColor = (r, s1)"
    by force
  from "3.IH"(1) "3.prems" call have s1: "s1 = move chess s m" by simp
  from "3.prems" have "m \<in> set (moves chess s)" by simp
  with "3.prems" s1 have restored: "undo chess s1 = s" by (simp add: undo_move)
  show ?case
    using "3.IH"(2) [OF call [symmetric] refl refl refl refl refl] "3.prems" restored call
    by (simp add: Let_def)
qed

lemma getBestMove_loop_state:
  "undo_restores chess \<Longrightarrow> set ms \<subseteq> set (moves chess s) \<Longrightarrow>
     snd (getBestMove_loop chess s maxDepth aiColor ms bestMove bestScore) = s"
proof (induction ms arbitrary: bestMove bestScore)
  case Nil
  then show ?case by simp
next
  case (Cons mv rest)
  obtain r s1 where call:
    "negamax chess (move chess s mv) (maxDepth - 1) NegInf PosInf (switchColor aiColor) = (r, s1)"
    by force
  from negamax_state(1) [OF Cons.prems(1), of "move chess s mv"] call
  have "s1 = move chess s mv" by (metis snd_conv)
  with Cons.prems have "undo chess s1 = s" by (simp add: undo_move)
  with Cons call show ?case by (simp add: Let_def)
qed

lemma getBestMove_state:
  assumes "undo_restores chess"
  shows "snd (getBestMove chess s maxDepth aiColor) = s"
proof (cases "moves chess s = []")
  case True
  then show ?thesis by (simp add: getBestMove_def)
next
  case False
  have "snd (getBestMove_loop chess s maxDepth aiColor (orderMoves (moves chess s)) None NegInf) = s"
    using assms by (rule getBestMove_loop_state) (simp add: orderMoves_set)
  with False show ?thesis
    by (simp add: getBestMove_def Let_def case_prod_beta)
qed

lemma toy_undo_restores: "undo_restores toy"
  by (simp add: undo_restores_def toy_def)

text \<open>
  C9. When \<open>negamax\<close> is called with a positive depth on a position that the engine does
  not report as over and that has no legal move, the loop does not run: the call returns
  \<open>-Infinity\<close>, the initial running maximum, and leaves the position as it is; the
  negation the caller applies gives \<open>Infinity\<close>.
\<close>

theorem negamax_without_moves:
  "0 < d \<and> \<not> game_over chess s \<and> moves chess s = [] \<longrightarrow>
     negamax chess s d alpha beta p = (NegInf, s) \<and>
     neg (fst (negamax chess s d alpha beta p)) = PosInf"
  by (simp add: negamax.simps orderMoves_Nil)

theorem negamax_without_moves_witness:
  "0 < (1::nat) \<and> \<not> game_over toy_open [''Kd8'', ''exd5''] \<and>
   moves toy_open [''Kd8'', ''exd5''] = [] \<and>
   negamax toy_open [''Kd8'', ''exd5''] 1 (Fin 5) PosInf ''b'' = (NegInf, [''Kd8'', ''exd5'']) \<and>
   neg (fst (negamax toy_open [''Kd8'', ''exd5''] 1 (Fin 5) PosInf ''b'')) = PosInf"
  using negamax_without_moves [of 1 toy_open "[''Kd8'', ''exd5'']" "Fin 5" PosInf "''b''"]
  by (simp add: toy_def toy_open_def toy_moves_def)

text \<open>
  C5. If \<open>undo\<close> takes back every listed move, a call of \<open>getBestMove\<close> with a positive
  depth leaves the position as it found it, and so does every call of \<open>negamax\<close>, whatever
  the window: each \<open>move\<close> is followed by its \<open>undo\<close> before the cutoff test.
\<close>

theorem search_restores_position:
  "undo_restores chess \<and> 0 < maxDepth \<longrightarrow>
     snd (getBestMove chess s maxDepth aiColor) = s \<and>
     snd (negamax chess s d alpha beta p) = s"
  by (simp add: getBestMove_state negamax_state)

theorem search_restores_position_witness:
  "undo_restores toy \<and> 0 < (2::nat) \<and>
   snd (getBestMove toy [] 2 ''w'') = [] \<and>
   snd (negamax toy [''e4''] 1 NegInf PosInf ''b'') = [''e4'']"
  using search_restores_position [of toy 2 "[]" "''w''" 1 NegInf PosInf "''b''"]
    search_restores_position [of toy 2 "[''e4'']" "''w''" 1 NegInf PosInf "''b''"]
    toy_undo_restores
  by simp

lemma negamax_Fin:
  shows "reports_terminal chess \<Longrightarrow> \<exists>n. fst (negamax chess s d a b p) = Fin n"
    and "reports_terminal chess \<Longrightarrow> (mx = NegInf \<and> ms \<noteq> []) \<or> (\<exists>k. mx = Fin k) \<Longrightarrow>
           \<exists>n. fst (negamax_loop chess s d ms mx a b p) = Fin n"
proof (induction chess s d a b p and chess s d ms mx a b p rule: negamax_negamax_loop.induct)
  case (1 chess s depth alpha beta perspectiveColor)
  show ?case
  proof (cases "depth = 0 \<or> game_over chess s")
    case True
    obtain n where "evaluateBoard chess s = Fin n"
      using evaluateBoard_Fin [of chess s] by auto
    with True show ?thesis
      by (simp add: negamax.simps [of chess s depth] Let_def)
  next
    case False
    with "1.prems" have "moves chess s \<noteq> []"
      by (auto simp: reports_terminal_def)
    then have "orderMoves (moves chess s) \<noteq> []"
      by (simp add: orderMoves_Nil_iff)
    with "1.IH" [OF False "1.prems"] False show ?thesis
      by (simp add: negamax.simps [of chess s depth])
  qed
next
  case (2 chess s d max' alpha beta perspectiveColor)
  then show ?case by auto
next
  case (3 chess s d m ms max' alpha beta perspectiveColor)
  obtain r s1 where call:
    "negamax chess (move chess s m) d (neg beta) (neg alpha) perspectiveColor = (r, s1)"
    by force
  from "3.IH"(1) [OF "3.prems"(1)] call obtain n where r: "r = Fin n" by auto
  define mx where "mx = (if gt (neg r) max' then neg r else max')"
  from "3.prems"(2) r have mx: "\<exists>k. mx = Fin k"
    by (auto simp: mx_def)
  define al where "al = (if gt mx alpha then mx else alpha)"
  have unfold: "negamax_loop chess s d (m # ms) max' alpha beta perspectiveColor =
      (if ge al beta then (mx, undo chess s1)
       else negamax_loop chess (undo chess s1) d ms mx al beta perspectiveColor)"
    by (simp add: call Let_def mx_def al_def)
  show ?case
  proof (cases "ge al beta")
    case True
    with mx show ?thesis
      unfolding unfold by simp
  next
    case False
    from "3.IH"(2) [OF call [symmetric] refl refl refl mx_def al_def False "3.prems"(1)] mx
    have "\<exists>n. fst (negamax_loop chess (undo chess s1) d ms mx al beta perspectiveColor) = Fin n"
      by blast
    with False show ?thesis
      unfolding unfold by simp
  qed
qed

lemma getBestMove_loop_move:
  "reports_terminal chess \<Longrightarrow> set ms \<subseteq> M \<Longrightarrow>
   (bestScore = NegInf \<and> ms \<noteq> []) \<or> (\<exists>m \<in> M. bestMove = Some m \<and> (\<exists>k. bestScore = Fin k)) \<Longrightarrow>
   \<exists>m \<in> M. best_move (fst (getBestMove_loop chess s maxDepth aiColor ms bestMove bestScore)) = Some m"
proof (induction ms arbitrary: s bestMove bestScore)
  case Nil
  then show ?case by auto
next
  case (Cons mv rest)
  obtain r s1 where call:
    "negamax chess (move chess s mv) (maxDepth - 1) NegInf PosInf (switchColor aiColor) = (r, s1)"
    by force
  from negamax_Fin(1) [OF Cons.prems(1), of "move chess s mv"] call
  obtain n where r: "r = Fin n" by (metis fst_conv)
  from Cons.prems have mv: "mv \<in> M" and rest: "set rest \<subseteq> M" by auto
  show ?case
  proof (cases "gt (neg r) bestScore")
    case True
    have "\<exists>m \<in> M. best_move (fst (getBestMove_loop chess (undo chess s1) maxDepth aiColor rest
             (Some mv) (neg r))) = Some m"
      using Cons.prems(1) rest by (rule Cons.IH) (use mv r in auto)
    with call True show ?thesis by (simp add: Let_def)
  next
    case False
    with Cons.prems(3) r have old: "\<exists>m \<in> M. bestMove = Some m \<and> (\<exists>k. bestScore = Fin k)"
      by auto
    have "\<exists>m \<in> M. best_move (fst (getBestMove_loop chess (undo chess s1) maxDepth aiColor rest
             bestMove bestScore)) = Some m"
      using Cons.prems(1) rest by (rule Cons.IH) (use old in auto)
    with call False show ?thesis by (simp add: Let_def)
  qed
qed

lemma getBestMove_some:
  assumes "reports_terminal chess" "moves chess s \<noteq> []"
  shows "\<exists>r m. fst (getBestMove chess s maxDepth aiColor) = Some r \<and> best_move r = Some m \<and>
               m \<in> set (moves chess s)"
proof -
  have "\<exists>m \<in> set (moves chess s).
          best_move (fst (getBestMove_loop chess s maxDepth aiColor (orderMoves (moves chess s))
            None NegInf)) = Some m"
    using assms by (intro getBestMove_loop_move) (simp_all add: orderMoves_set orderMoves_Nil_iff)
  with assms(2) show ?thesis
    by (auto simp: getBestMove_def Let_def case_prod_beta)
qed

lemma toy_reports_terminal: "reports_terminal toy"
  by (auto simp: reports_terminal_def toy_def toy_moves_def split: list.splits if_splits)

text \<open>
  C6. \<open>getBestMove\<close> returns \<open>null\<close> when the position has no legal move, with no search
  and no loop. When the position has a legal move and the engine reports every position
  without moves as over, it returns a result whose move is one of the legal moves. (In
  \<open>makeAIMove\<close> the same test on the move list returns before any move is played.)
\<close>

theorem getBestMove_none_iff:
  "reports_terminal chess \<and> 0 < maxDepth \<longrightarrow>
     (moves chess s = [] \<longrightarrow> fst (getBestMove chess s maxDepth aiColor) = None) \<and>
     (moves chess s \<noteq> [] \<longrightarrow>
        (\<exists>r m. fst (getBestMove chess s maxDepth aiColor) = Some r \<and> best_move r = Some m \<and>
               m \<in> set (moves chess s))) \<and>
     (moves chess s = [] \<longrightarrow> makeAIMove chess s elo aiSide random = s)"
proof (intro impI conjI)
  assume "moves chess s = []"
  then show "fst (getBestMove chess s maxDepth aiColor) = None"
    by (simp add: getBestMove_def)
next
  assume "reports_terminal chess \<and> 0 < maxDepth" and "moves chess s \<noteq> []"
  then show "\<exists>r m. fst (getBestMove chess s maxDepth aiColor) = Some r \<and> best_move r = Some m \<and>
               m \<in> set (moves chess s)"
    by (intro getBestMove_some) simp_all
next
  assume "moves chess s = []"
  then show "makeAIMove chess s elo aiSide random = s"
    by (simp add: makeAIMove_def Let_def)
qed

theorem getBestMove_none_iff_witness:
  "reports_terminal toy \<and> 0 < (2::nat) \<and>
   moves toy [''Kd8'', ''exd5''] = [] \<and>
   fst (getBestMove toy [''Kd8'', ''exd5''] 2 ''b'') = None \<and>
   moves toy [] \<noteq> [] \<and>
   fst (getBestMove toy [] 2 ''w'') = Some \<lparr>best_move = Some ''exd5'', best_score = Fin 0\<rparr> \<and>
   ''exd5'' \<in> set (moves toy []) \<and>
   makeAIMove toy [''Kd8'', ''exd5''] 500 ''black'' (\<lambda>i. 0) = [''Kd8'', ''exd5'']"
proof -
  have run: "fst (getBestMove toy [] 2 ''w'') = Some \<lparr>best_move = Some ''exd5'', best_score = Fin 0\<rparr>"
    by (simp add: getBestMove_def negamax.simps switchColor_def toy_eval)
  show ?thesis
    using getBestMove_none_iff [of toy 2 "[''Kd8'', ''exd5'']" "''b''" 500 "''black''" "\<lambda>i. 0"]
      getBestMove_none_iff [of toy 2 "[]" "''w''" 500 "''black''" "\<lambda>i. 0"]
      toy_reports_terminal run
    by (simp add: toy_def toy_moves_def)
qed

lemma less_num_simps [simp]:
  "NaN < NegInf" "NaN < Fin i" "NaN < PosInf" "NegInf < Fin i" "NegInf < PosInf" "Fin i < PosInf"
  "(Fin i < Fin j) = (i < j)" "\<not> a < NaN" "\<not> PosInf < a" "\<not> Fin i < NegInf" "\<not> NegInf < NegInf"
  by (cases a; auto simp: less_num_def)+

lemma gt_iff: "a \<noteq> NaN \<Longrightarrow> b \<noteq> NaN \<Longrightarrow> gt a b \<longleftrightarrow> b < a"
  by (cases a; cases b) simp_all

lemma ge_iff: "a \<noteq> NaN \<Longrightarrow> b \<noteq> NaN \<Longrightarrow> ge a b \<longleftrightarrow> b \<le> a"
  by (cases a; cases b) simp_all

lemma gt_less: "gt a b \<Longrightarrow> b < a"
  by (cases a; cases b) simp_all

lemma gt_proper: "gt a b \<Longrightarrow> a \<noteq> NaN"
  by (cases a; cases b) simp_all

lemma neg_NaN_iff [simp]: "neg a = NaN \<longleftrightarrow> a = NaN"
  by (cases a) simp_all

lemma neg_neg [simp]: "neg (neg a) = a"
  by (cases a) simp_all

lemma neg_less_iff: "a \<noteq> NaN \<Longrightarrow> b \<noteq> NaN \<Longrightarrow> neg a < neg b \<longleftrightarrow> b < a"
  by (cases a; cases b) simp_all

lemma neg_le_iff: "a \<noteq> NaN \<Longrightarrow> b \<noteq> NaN \<Longrightarrow> neg a \<le> neg b \<longleftrightarrow> b \<le> a"
  by (cases a; cases b) simp_all

lemma js_max: "a \<noteq> NaN \<Longrightarrow> b \<noteq> NaN \<Longrightarrow> (if gt a b then a else b) = max b a"
  by (auto simp: gt_iff max_def)

lemma max_proper: "a \<noteq> NaN \<Longrightarrow> b \<noteq> NaN \<Longrightarrow> max a b \<noteq> NaN"
  by (simp add: max_def)

lemma fail_soft_neg:
  assumes "a \<noteq> NaN" "b \<noteq> NaN" "v \<noteq> NaN" "r \<noteq> NaN" "fail_soft (neg b) (neg a) v r"
  shows "fail_soft a b (neg v) (neg r)"
proof -
  have 1: "neg r \<le> a \<longleftrightarrow> neg a \<le> r" using neg_le_iff [of r "neg a"] assms by simp
  have 2: "neg v \<le> neg r \<longleftrightarrow> r \<le> v" using neg_le_iff [of v r] assms by simp
  have 3: "a < neg r \<longleftrightarrow> r < neg a" using neg_less_iff [of "neg a" r] assms by simp
  have 4: "neg r < b \<longleftrightarrow> neg b < r" using neg_less_iff [of r "neg b"] assms by simp
  have 5: "b \<le> neg r \<longleftrightarrow> r \<le> neg b" using neg_le_iff [of "neg b" r] assms by simp
  have 6: "neg r \<le> neg v \<longleftrightarrow> v \<le> r" using neg_le_iff [of r v] assms by simp
  have 7: "neg r = neg v \<longleftrightarrow> r = v" by (metis neg_neg)
  from assms(5) show ?thesis
    unfolding fail_soft_def 1 2 3 4 5 6 7 by blast
qed

lemma fail_soft_refl: "fail_soft a b v v"
  by (simp add: fail_soft_def)

lemma fail_soft_full: "v \<noteq> NaN \<Longrightarrow> r \<noteq> NaN \<Longrightarrow> fail_soft NegInf PosInf v r \<Longrightarrow> r = v"
  unfolding fail_soft_def by (cases v; cases r) auto

lemma step_cut:
  fixes a0 :: num
  assumes "alpha = max a0 mx" "alpha < b" "mx = V \<or> (V \<le> mx \<and> mx \<le> a0)"
    "fail_soft alpha b vc rc" "b \<le> max alpha (max mx rc)" "max V vc \<le> W"
  shows "fail_soft a0 b W (max mx rc)"
  using assms unfolding fail_soft_def by (auto simp: max_def split: if_splits)

lemma step_cont:
  fixes a0 :: num
  assumes "alpha = max a0 mx" "alpha < b" "mx = V \<or> (V \<le> mx \<and> mx \<le> a0)"
    "fail_soft alpha b vc rc" "\<not> b \<le> max alpha (max mx rc)"
  shows "max alpha (max mx rc) = max a0 (max mx rc) \<and>
         (max mx rc = max V vc \<or> (max V vc \<le> max mx rc \<and> max mx rc \<le> a0))"
  using assms unfolding fail_soft_def by (auto simp: max_def split: if_splits)

lemma step_done:
  fixes a0 :: num
  assumes "alpha = max a0 mx" "alpha < b" "mx = V \<or> (V \<le> mx \<and> mx \<le> a0)"
  shows "fail_soft a0 b V mx"
  using assms unfolding fail_soft_def by (auto simp: max_def split: if_splits)


declare fullwidth.simps [simp del]

lemma fullwidth_proper:
  shows "fullwidth chess s d p \<noteq> NaN"
    and "mx \<noteq> NaN \<Longrightarrow> fullwidth_loop chess s d ms mx p \<noteq> NaN"
proof (induction chess s d p and chess s d ms mx p rule: fullwidth_fullwidth_loop.induct)
  case (1 chess s depth perspectiveColor)
  obtain n where "evaluateBoard chess s = Fin n"
    using evaluateBoard_Fin [of chess s] by auto
  with 1 show ?case by (simp add: fullwidth.simps [of chess s depth] Let_def)
next
  case (2 chess s d max' perspectiveColor)
  then show ?case by simp
next
  case (3 chess s d m ms max' perspectiveColor)
  then show ?case by (simp add: Let_def)
qed

lemma negamax_proper:
  shows "fst (negamax chess s d a b p) \<noteq> NaN"
    and "mx \<noteq> NaN \<Longrightarrow> fst (negamax_loop chess s d ms mx a b p) \<noteq> NaN"
proof (induction chess s d a b p and chess s d ms mx a b p rule: negamax_negamax_loop.induct)
  case (1 chess s depth alpha beta perspectiveColor)
  obtain n where "evaluateBoard chess s = Fin n"
    using evaluateBoard_Fin [of chess s] by auto
  with 1 show ?case by (simp add: negamax.simps [of chess s depth] Let_def)
next
  case (2 chess s d max' alpha beta perspectiveColor)
  then show ?case by simp
next
  case (3 chess s d m ms max' alpha beta perspectiveColor)
  obtain r s1 where call:
    "negamax chess (move chess s m) d (neg beta) (neg alpha) perspectiveColor = (r, s1)"
    by force
  from "3.IH"(1) call have r: "r \<noteq> NaN" by simp
  define mx where "mx = (if gt (neg r) max' then neg r else max')"
  define al where "al = (if gt mx alpha then mx else alpha)"
  from r "3.prems" have mx: "mx \<noteq> NaN" by (simp add: mx_def)
  have unfold: "negamax_loop chess s d (m # ms) max' alpha beta perspectiveColor =
      (if ge al beta then (mx, undo chess s1)
       else negamax_loop chess (undo chess s1) d ms mx al beta perspectiveColor)"
    by (simp add: call Let_def mx_def al_def)
  show ?case
    using "3.IH"(2) [OF call [symmetric] refl refl refl mx_def al_def _ mx] mx
    unfolding unfold by (cases "ge al beta") simp_all
qed

lemma fullwidth_loop_ge: "mx \<noteq> NaN \<Longrightarrow> mx \<le> fullwidth_loop chess s d ms mx p"
proof (induction ms arbitrary: mx)
  case Nil
  then show ?case by simp
next
  case (Cons m ms)
  define sc where "sc = neg (fullwidth chess (move chess s m) d p)"
  have sc: "sc \<noteq> NaN" by (simp add: sc_def fullwidth_proper)
  have "max mx sc \<le> fullwidth_loop chess s d ms (max mx sc) p"
    using Cons.prems sc by (intro Cons.IH max_proper)
  then show ?case
    using Cons.prems sc by (simp add: Let_def sc_def [symmetric] js_max)
qed

lemma negamax_fail_soft:
  shows "undo_restores chess \<Longrightarrow> a \<noteq> NaN \<Longrightarrow> b \<noteq> NaN \<Longrightarrow> a < b \<Longrightarrow>
           fail_soft a b (fullwidth chess s d p) (fst (negamax chess s d a b p))"
    and "undo_restores chess \<Longrightarrow> set ms \<subseteq> set (moves chess s) \<Longrightarrow> b \<noteq> NaN \<Longrightarrow> mx \<noteq> NaN \<Longrightarrow>
           a \<noteq> NaN \<Longrightarrow> a < b \<Longrightarrow>
           (\<forall>a0 V. a0 \<noteq> NaN \<longrightarrow> V \<noteq> NaN \<longrightarrow> a = max a0 mx \<longrightarrow> (mx = V \<or> (V \<le> mx \<and> mx \<le> a0)) \<longrightarrow>
              fail_soft a0 b (fullwidth_loop chess s d ms V p)
                (fst (negamax_loop chess s d ms mx a b p)))"
proof (induction chess s d a b p and chess s d ms mx a b p rule: negamax_negamax_loop.induct)
  case (1 chess s depth alpha beta perspectiveColor)
  show ?case
  proof (cases "depth = 0 \<or> game_over chess s")
    case True
    then show ?thesis
      by (simp add: negamax.simps [of chess s depth] fullwidth.simps [of chess s depth] Let_def
            fail_soft_refl)
  next
    case False
    have top: "alpha = max alpha NegInf"
      using "1.prems"(2) by (cases alpha) (simp_all add: max_def)
    have "\<forall>a0 V. a0 \<noteq> NaN \<longrightarrow> V \<noteq> NaN \<longrightarrow> alpha = max a0 NegInf \<longrightarrow>
            (NegInf = V \<or> (V \<le> NegInf \<and> NegInf \<le> a0)) \<longrightarrow>
            fail_soft a0 beta
              (fullwidth_loop chess s (depth - 1) (orderMoves (moves chess s)) V perspectiveColor)
              (fst (negamax_loop chess s (depth - 1) (orderMoves (moves chess s)) NegInf alpha beta
                 perspectiveColor))"
      using "1.prems" by (intro "1.IH" [OF False]) (simp_all add: orderMoves_set)
    with top "1.prems"(2)
    have "fail_soft alpha beta
            (fullwidth_loop chess s (depth - 1) (orderMoves (moves chess s)) NegInf perspectiveColor)
            (fst (negamax_loop chess s (depth - 1) (orderMoves (moves chess s)) NegInf alpha beta
               perspectiveColor))"
      by blast
    with False show ?thesis
      by (simp add: negamax.simps [of chess s depth] fullwidth.simps [of chess s depth])
  qed
next
  case (2 chess s d max' alpha beta perspectiveColor)
  then show ?case by (auto intro: step_done)
next
  case (3 chess s d m ms max' alpha beta perspectiveColor)
  note U = "3.prems"(1)
  from "3.prems" have m: "m \<in> set (moves chess s)" and ms: "set ms \<subseteq> set (moves chess s)"
    by auto
  obtain r s1 where call:
    "negamax chess (move chess s m) d (neg beta) (neg alpha) perspectiveColor = (r, s1)"
    by force
  from negamax_state(1) [OF U, of "move chess s m" d "neg beta" "neg alpha" perspectiveColor] call
  have "s1 = move chess s m" by simp
  with U m have s2: "undo chess s1 = s" by (simp add: undo_move)
  from negamax_proper(1) [of chess "move chess s m" d "neg beta" "neg alpha" perspectiveColor] call
  have r: "r \<noteq> NaN" by simp
  define vc where "vc = neg (fullwidth chess (move chess s m) d perspectiveColor)"
  have vc: "vc \<noteq> NaN" by (simp add: vc_def fullwidth_proper)
  have child: "fail_soft alpha beta vc (neg r)"
  proof -
    have "fail_soft (neg beta) (neg alpha) (fullwidth chess (move chess s m) d perspectiveColor)
            (fst (negamax chess (move chess s m) d (neg beta) (neg alpha) perspectiveColor))"
      using "3.prems" by (intro "3.IH"(1)) (simp_all add: neg_less_iff)
    with call show ?thesis
      unfolding vc_def using "3.prems" r
      by (intro fail_soft_neg) (simp_all add: fullwidth_proper)
  qed
  define mx where "mx = (if gt (neg r) max' then neg r else max')"
  define al where "al = (if gt mx alpha then mx else alpha)"
  have mx_max: "mx = max max' (neg r)"
    using r "3.prems" by (simp add: mx_def js_max)
  have mx: "mx \<noteq> NaN"
    using r "3.prems" by (simp add: mx_max max_proper)
  have al_max: "al = max alpha mx"
    using mx "3.prems" by (simp add: al_def js_max)
  have al: "al \<noteq> NaN"
    using mx "3.prems" by (simp add: al_max max_proper)
  have cut: "ge al beta \<longleftrightarrow> beta \<le> al"
    using al "3.prems" by (simp add: ge_iff)
  have unfold: "negamax_loop chess s d (m # ms) max' alpha beta perspectiveColor =
      (if ge al beta then (mx, s)
       else negamax_loop chess s d ms mx al beta perspectiveColor)"
    by (simp add: call Let_def mx_def al_def s2)
  have full: "\<And>V. V \<noteq> NaN \<Longrightarrow> fullwidth_loop chess s d (m # ms) V perspectiveColor =
      fullwidth_loop chess s d ms (max V vc) perspectiveColor"
    using vc by (simp add: Let_def vc_def [symmetric] js_max)
  show ?case
  proof (intro allI impI)
    fix a0 V
    assume a0: "a0 \<noteq> NaN" and V: "V \<noteq> NaN" and alpha: "alpha = max a0 max'"
      and J: "max' = V \<or> (V \<le> max' \<and> max' \<le> a0)"
    have V': "max V vc \<noteq> NaN" using V vc by (rule max_proper)
    show "fail_soft a0 beta (fullwidth_loop chess s d (m # ms) V perspectiveColor)
            (fst (negamax_loop chess s d (m # ms) max' alpha beta perspectiveColor))"
    proof (cases "ge al beta")
      case True
      with cut have "beta \<le> al" by blast
      then have "beta \<le> max alpha (max max' (neg r))"
        unfolding al_max mx_max .
      moreover have "max V vc \<le> fullwidth_loop chess s d ms (max V vc) perspectiveColor"
        using V' by (rule fullwidth_loop_ge)
      ultimately have "fail_soft a0 beta (fullwidth_loop chess s d ms (max V vc) perspectiveColor)
                         (max max' (neg r))"
        using alpha "3.prems"(6) J child by (intro step_cut)
      with True show ?thesis
        unfolding unfold full [OF V] by (simp add: mx_max)
    next
      case False
      with cut have "\<not> beta \<le> al" by blast
      then have nocut: "\<not> beta \<le> max alpha (max max' (neg r))"
        unfolding al_max mx_max .
      from step_cont [OF alpha "3.prems"(6) J child nocut]
      have al0: "al = max a0 mx" and J': "mx = max V vc \<or> (max V vc \<le> mx \<and> mx \<le> a0)"
        by (simp_all add: al_max mx_max)
      from \<open>\<not> beta \<le> al\<close> have "al < beta" by simp
      note "3.IH"(2) [OF call [symmetric] refl refl refl mx_def al_def False U, unfolded s2,
          OF ms "3.prems"(3) mx al \<open>al < beta\<close>, rule_format, OF a0 V' al0 J']
      then have "fail_soft a0 beta (fullwidth_loop chess s d ms (max V vc) perspectiveColor)
              (fst (negamax_loop chess s d ms mx al beta perspectiveColor))" .
      with False show ?thesis
        unfolding unfold full [OF V] by simp
    qed
  qed
qed

text \<open>
  C2. If \<open>undo\<close> takes back every listed move, then for every position, depth and
  perspective the search started with the full window \<open>(-Infinity, Infinity)\<close>, as
  \<open>getBestMove\<close> starts it, returns the score of the search without pruning over the same
  positions, with the same leaf scores and the same move order.
\<close>

theorem alpha_beta_equals_fullwidth:
  "undo_restores chess \<longrightarrow> fst (negamax chess s d NegInf PosInf p) = fullwidth chess s d p"
proof
  assume "undo_restores chess"
  then have "fail_soft NegInf PosInf (fullwidth chess s d p) (fst (negamax chess s d NegInf PosInf p))"
    by (rule negamax_fail_soft(1)) simp_all
  then show "fst (negamax chess s d NegInf PosInf p) = fullwidth chess s d p"
    using fullwidth_proper(1) negamax_proper(1) by (rule fail_soft_full [rotated 2])
qed

theorem alpha_beta_equals_fullwidth_witness:
  "undo_restores toy \<and>
   fst (negamax toy [] 2 NegInf PosInf ''w'') = fullwidth toy [] 2 ''w'' \<and>
   fullwidth toy [] 2 ''w'' = Fin 0 \<and>
   negamax toy [''e4''] 1 NegInf (Fin 0) ''w'' = (Fin 999999, [''e4'']) \<and>
   fullwidth toy [''e4''] 1 ''w'' = Fin 999999"
proof -
  have run: "fullwidth toy [] 2 ''w'' = Fin 0" "fullwidth toy [''e4''] 1 ''w'' = Fin 999999"
    "negamax toy [''e4''] 1 NegInf (Fin 0) ''w'' = (Fin 999999, [''e4''])"
    by (simp_all add: fullwidth.simps negamax.simps toy_eval)
  show ?thesis
    using alpha_beta_equals_fullwidth [of toy "[]" 2 "''w''"] toy_undo_restores run
    by simp
qed

section \<open>Results about the move selector\<close>

lemma shallowScore_Fin: "\<exists>n. shallowScore chess game perspective mv = Fin n"
  using evaluateBoard_Fin [of chess "move chess game mv"] by (auto simp: shallowScore_def)

lemma scoreMoves_eq:
  "undo_restores chess \<Longrightarrow> set ms \<subseteq> set (moves chess game) \<Longrightarrow>
     scoreMoves chess game perspective ms scored =
       (scored @ map (shallowEntry chess game perspective) ms, game)"
proof (induction ms arbitrary: scored)
  case Nil
  then show ?case by simp
next
  case (Cons mv rest)
  then have "undo chess (move chess game mv) = game"
    by (simp add: undo_move)
  with Cons show ?case
    by (simp add: Let_def shallowEntry_def shallowScore_def)
qed

lemma by_score_gt:
  "a = Fin i \<Longrightarrow> b = Fin j \<Longrightarrow> gt (sub b a) (Fin 0) \<longleftrightarrow> a < b"
  by (simp add: sub_def)

lemma set_insert_sorted: "set (insert_sorted cmp x ys) = insert x (set ys)"
  by (induction ys) auto

lemma insert_sorted_desc:
  assumes "\<forall>y \<in> set (x # ys). \<exists>n. scored_score y = Fin n"
    and "sorted_wrt (\<lambda>a b. scored_score b \<le> scored_score a) ys"
  shows "sorted_wrt (\<lambda>a b. scored_score b \<le> scored_score a)
           (insert_sorted (\<lambda>a b. sub (scored_score b) (scored_score a)) x ys)"
  using assms
proof (induction ys)
  case Nil
  then show ?case by simp
next
  case (Cons y ys)
  from Cons.prems(1) obtain i j where x: "scored_score x = Fin i" and y: "scored_score y = Fin j"
    by auto
  have test: "gt (sub (scored_score y) (scored_score x)) (Fin 0) \<longleftrightarrow> scored_score x < scored_score y"
    using x y by (rule by_score_gt)
  show ?case
  proof (cases "scored_score x < scored_score y")
    case True
    with Cons test show ?thesis
      by (auto simp: set_insert_sorted)
  next
    case False
    then have yx: "scored_score y \<le> scored_score x" by simp
    have "\<forall>z \<in> set ys. scored_score z \<le> scored_score x"
    proof
      fix z assume "z \<in> set ys"
      with Cons.prems(2) have "scored_score z \<le> scored_score y" by simp
      with yx show "scored_score z \<le> scored_score x" by simp
    qed
    with Cons.prems(2) yx False test show ?thesis
      by simp
  qed
qed

lemma js_sort_desc:
  assumes "\<forall>y \<in> set xs. \<exists>n. scored_score y = Fin n"
  shows "sorted_wrt (\<lambda>a b. scored_score b \<le> scored_score a)
           (js_sort (\<lambda>a b. sub (scored_score b) (scored_score a)) xs)"
  using assms
proof (induction xs)
  case Nil
  then show ?case by (simp add: js_sort_Nil)
next
  case (Cons x xs)
  have "set (js_sort (\<lambda>a b. sub (scored_score b) (scored_score a)) xs) = set xs"
    by (metis js_sort_mset set_mset_mset)
  with Cons show ?case
    unfolding js_sort_Cons by (intro insert_sorted_desc) auto
qed

lemma rhe_le: "real_of_int (round_half_even q) \<le> q + 1 / 2"
  unfolding round_half_even_def Let_def by (auto; linarith)

lemma rhe_ge: "q - 1 / 2 \<le> real_of_int (round_half_even q)"
  unfolding round_half_even_def Let_def by (auto; linarith)

lemma rhe_int [simp]: "round_half_even (real_of_int m) = m"
  by (simp add: round_half_even_def)

lemma rhe_mono_int: "real_of_int m \<le> q \<Longrightarrow> m \<le> round_half_even q"
  unfolding round_half_even_def Let_def by (auto simp: le_floor_iff; linarith)

lemma ulp_pos: "0 < ulp x"
  by (simp add: ulp_def)

lemma to_double_le: "to_double x \<le> x + ulp x / 2"
proof -
  have "real_of_int (round_half_even (x / ulp x)) * ulp x \<le> (x / ulp x + 1 / 2) * ulp x"
    using rhe_le [of "x / ulp x"] ulp_pos [of x] by (simp add: mult_right_mono)
  also have "\<dots> = x + ulp x / 2"
    using ulp_pos [of x] by (simp add: field_simps)
  finally show ?thesis by (simp add: to_double_def)
qed

lemma to_double_0 [simp]: "to_double 0 = 0"
  by (simp add: to_double_def round_half_even_def)

lemma floor_log2:
  assumes "0 < x" "2 powr real_of_int e \<le> x" "x < 2 powr (real_of_int e + 1)"
  shows "\<lfloor>log 2 x\<rfloor> = e"
proof -
  have "real_of_int e \<le> log 2 x" using assms by (simp add: le_log_iff)
  moreover have "log 2 x < real_of_int e + 1" using assms by (simp add: log_less_iff)
  ultimately show ?thesis by (simp add: floor_eq_iff)
qed

lemma ulp_normal:
  assumes "2 powr (- 1022) \<le> x"
  shows "ulp x \<le> x * 2 powr (- 52)"
proof -
  have "(0::real) < 2 powr (- 1022)" by simp
  with assms have pos: "0 < x" by linarith
  have "- 1022 \<le> log 2 x" using assms pos by (simp add: le_log_iff)
  then have "- 1022 \<le> \<lfloor>log 2 x\<rfloor>" by (simp add: le_floor_iff)
  then have e: "exponent x = \<lfloor>log 2 x\<rfloor>" using pos by (simp add: exponent_def)
  have "2 powr real_of_int \<lfloor>log 2 x\<rfloor> \<le> 2 powr (log 2 x)"
    by (simp add: powr_le_cancel_iff)
  then have "2 powr real_of_int \<lfloor>log 2 x\<rfloor> \<le> x" using pos by simp
  then have "2 powr real_of_int \<lfloor>log 2 x\<rfloor> * 2 powr (- 52) \<le> x * 2 powr (- 52)"
    by (simp add: mult_right_mono)
  then show ?thesis by (simp add: ulp_def e powr_diff powr_minus field_simps)
qed

lemma ulp_tiny:
  assumes "0 < x" "x < 2 powr (- 1022)"
  shows "ulp x = 2 powr (- 1074)"
proof -
  have "log 2 x < - 1022" using assms by (simp add: log_less_iff)
  then have "\<lfloor>log 2 x\<rfloor> \<le> - 1022" by (simp add: floor_le_iff)
  then have "exponent x = - 1022" using assms by (simp add: exponent_def)
  then show ?thesis by (simp add: ulp_def)
qed

lemma to_double_rel:
  assumes "2 powr (- 1022) \<le> x"
  shows "to_double x \<le> x * (1 + 2 powr (- 53))"
proof -
  have "ulp x / 2 \<le> x * 2 powr (- 52) / 2"
    using ulp_normal [OF assms] by simp
  also have "x * 2 powr (- 52) / 2 = x * 2 powr (- 53)"
    by (simp add: powr_minus)
  finally have "ulp x / 2 \<le> x * 2 powr (- 53)" .
  with to_double_le [of x] show ?thesis by (simp add: algebra_simps)
qed

lemma to_double_tiny:
  assumes "0 \<le> x" "x < 2 powr (- 1022)"
  shows "to_double x < 1"
proof (cases "x = 0")
  case True
  then show ?thesis by simp
next
  case False
  with assms have "ulp x = 2 powr (- 1074)" by (intro ulp_tiny) simp_all
  with to_double_le [of x] have "to_double x \<le> x + 2 powr (- 1074) / 2" by simp
  also have "\<dots> < 2 powr (- 1022) + 2 powr (- 1074) / 2" using assms by simp
  also have "\<dots> \<le> 1" by (simp add: powr_minus)
  finally show ?thesis .
qed

lemma exponent_le_52:
  assumes "0 < x" "x < 2 powr 53"
  shows "exponent x \<le> 52"
proof -
  have "log 2 x < 53" using assms by (simp add: log_less_iff)
  then have "\<lfloor>log 2 x\<rfloor> \<le> 52" by (simp add: floor_le_iff)
  with assms show ?thesis by (simp add: exponent_def)
qed

lemma to_double_ge_nat:
  assumes "real J \<le> x" "x < 2 powr 53"
  shows "real J \<le> to_double x"
proof (cases "x = 0")
  case True
  with assms show ?thesis by simp
next
  case False
  have "0 \<le> real J" by simp
  with assms(1) False have pos: "0 < x" by linarith
  define d where "d = nat (52 - exponent x)"
  have d: "52 - exponent x = int d"
    using exponent_le_52 [OF pos assms(2)] by (simp add: d_def)
  from d have "real_of_int (52 - exponent x) = real d" by simp
  then have "real_of_int (exponent x) - 52 = - real d" by simp
  then have "ulp x = 2 powr (- real d)"
    by (simp add: ulp_def)
  then have ulp: "ulp x = 1 / 2 ^ d"
    by (simp add: powr_minus powr_realpow field_simps)
  have "real_of_int (int J * 2 ^ d) \<le> x / ulp x"
    using assms(1) by (simp add: ulp mult_right_mono)
  then have "int J * 2 ^ d \<le> round_half_even (x / ulp x)"
    by (rule rhe_mono_int)
  then have "real_of_int (int J * 2 ^ d) \<le> real_of_int (round_half_even (x / ulp x))"
    by linarith
  then have "real_of_int (int J * 2 ^ d) * ulp x \<le> to_double x"
    unfolding to_double_def using ulp_pos [of x] by (simp add: mult_right_mono)
  then show ?thesis by (simp add: ulp)
qed

lemma double_below_one:
  assumes "is_double u" "0 \<le> u" "u < 1"
  shows "u \<le> 1 - 2 powr (- 53)"
proof (cases "1 / 2 \<le> u")
  case False
  have "(2::real) powr (- 53) = 1 / 2 ^ 53" by (simp add: powr_minus)
  then have "(2::real) powr (- 53) \<le> 1 / 2" by simp
  with False show ?thesis by linarith
next
  case True
  then have "\<lfloor>log 2 u\<rfloor> = - 1"
    using assms by (intro floor_log2) (simp_all add: powr_minus)
  with True have "exponent u = - 1" by (simp add: exponent_def)
  then have ulp: "ulp u = 2 powr (- 53)" by (simp add: ulp_def)
  define r where "r = round_half_even (u / ulp u)"
  have u: "u = real_of_int r * 2 powr (- 53)"
    using assms(1) by (simp add: is_double_def to_double_def r_def ulp)
  have p: "(2::real) powr (- 53) = 1 / 2 ^ 53"
    by (simp add: powr_minus)
  from u assms(3) have "real_of_int r < 2 ^ 53"
    by (simp add: p field_simps)
  then have "real_of_int r < real_of_int (2 ^ 53)" by simp
  then have "r < 2 ^ 53" by (simp only: of_int_less_iff)
  then have "r \<le> 2 ^ 53 - 1" by simp
  then have "real_of_int r \<le> real_of_int (2 ^ 53 - 1)" by (simp only: of_int_le_iff)
  then have "real_of_int r \<le> 2 ^ 53 - 1" by simp
  then have "real_of_int r * 2 powr (- 53) \<le> (2 ^ 53 - 1) * 2 powr (- 53)"
    by (simp add: mult_right_mono)
  with u show ?thesis by (simp add: p field_simps)
qed

lemma to_double_less_nat:
  assumes "is_double u" "0 \<le> u" "u < 1" "0 < n"
  shows "to_double (u * real n) < real n"
proof (cases "u * real n < 2 powr (- 1022)")
  case True
  with assms have "to_double (u * real n) < 1" by (intro to_double_tiny) simp_all
  with assms(4) show ?thesis by linarith
next
  case False
  then have "to_double (u * real n) \<le> u * real n * (1 + 2 powr (- 53))"
    by (intro to_double_rel) simp
  also have "\<dots> \<le> (1 - 2 powr (- 53)) * real n * (1 + 2 powr (- 53))"
    using double_below_one [OF assms(1-3)] by (simp add: mult_right_mono)
  also have "\<dots> = real n * (1 - 2 powr (- 53) * 2 powr (- 53))"
    by (simp add: algebra_simps)
  also have "\<dots> < real n * 1"
    using assms(4) by (intro mult_strict_left_mono) simp_all
  finally show ?thesis by simp
qed

lemma nat_less_of_int_less: "0 < n \<Longrightarrow> z < int n \<Longrightarrow> nat z < n"
  by arith

lemma random_index_less:
  assumes "is_double u" "0 \<le> u" "u < 1" "0 < n"
  shows "random_index u n < n"
proof -
  have "to_double (u * real n) < real n" using assms by (rule to_double_less_nat)
  then have "\<lfloor>to_double (u * real n)\<rfloor> < int n" by (simp add: floor_less_iff)
  then show ?thesis
    unfolding random_index_def by (rule nat_less_of_int_less [OF assms(4)])
qed

lemma random_index_interval:
  assumes "is_double u" "0 \<le> u" "u < 1" "0 < n" "real n \<le> 2 powr 53"
  shows "real j \<le> u * real n \<and> u * real n * (1 + 2 powr (- 53)) < real j + 1 \<longrightarrow>
           random_index u n = j"
    and "random_index u n = j \<longrightarrow>
           real j \<le> u * real n * (1 + 2 powr (- 53)) \<and> u * real n < real j + 1"
proof -
  define x where "x = u * real n"
  define y where "y = to_double x"
  have x0: "0 \<le> x" using assms by (simp add: x_def)
  have "x < real n" using assms by (simp add: x_def)
  with assms(5) have x53: "x < 2 powr 53" by linarith
  have ge: "real J \<le> y" if "real J \<le> x" for J
    unfolding y_def using that x53 by (rule to_double_ge_nat)
  from ge [of 0] x0 have y0: "0 \<le> y" by simp
  have idx: "random_index u n = nat \<lfloor>y\<rfloor>"
    by (simp add: random_index_def x_def y_def)
  have up: "y < real J + 1" if "x * (1 + 2 powr (- 53)) < real J + 1" for J
  proof (cases "x < 2 powr (- 1022)")
    case True
    with x0 have "y < 1" unfolding y_def by (rule to_double_tiny)
    then show ?thesis by linarith
  next
    case False
    then have "y \<le> x * (1 + 2 powr (- 53))"
      unfolding y_def by (intro to_double_rel) simp
    with that show ?thesis by linarith
  qed
  show "real j \<le> u * real n \<and> u * real n * (1 + 2 powr (- 53)) < real j + 1 \<longrightarrow>
           random_index u n = j"
  proof
    assume "real j \<le> u * real n \<and> u * real n * (1 + 2 powr (- 53)) < real j + 1"
    then have a: "real j \<le> x" and b: "x * (1 + 2 powr (- 53)) < real j + 1"
      by (simp_all add: x_def)
    from ge [OF a] have "int j \<le> \<lfloor>y\<rfloor>" by (simp add: le_floor_iff)
    moreover from up [OF b] have "y < real_of_int (int j + 1)" by simp
    then have "\<lfloor>y\<rfloor> < int j + 1" by (simp only: floor_less_iff)
    ultimately show "random_index u n = j" unfolding idx by linarith
  qed
  show "random_index u n = j \<longrightarrow>
           real j \<le> u * real n * (1 + 2 powr (- 53)) \<and> u * real n < real j + 1"
  proof
    assume "random_index u n = j"
    with idx y0 have fl: "\<lfloor>y\<rfloor> = int j" by simp
    then have lo: "real j \<le> y" and hi: "y < real j + 1"
      by (simp_all add: floor_eq_iff)
    have "x < real j + 1"
    proof (rule ccontr)
      assume "\<not> x < real j + 1"
      then have "real (Suc j) \<le> x" by simp
      from ge [OF this] hi show False by simp
    qed
    moreover have "real j \<le> x * (1 + 2 powr (- 53))"
    proof (rule ccontr)
      assume "\<not> real j \<le> x * (1 + 2 powr (- 53))"
      then have "x * (1 + 2 powr (- 53)) < real j" by simp
      then show False
      proof (cases j)
        case 0
        have "(0::real) \<le> 1 + 2 powr (- 53)" by (simp add: add_nonneg_nonneg)
        with x0 have "0 \<le> x * (1 + 2 powr (- 53))" by (rule mult_nonneg_nonneg)
        with \<open>x * (1 + 2 powr (- 53)) < real j\<close> 0 show False by simp
      next
        case (Suc j')
        with \<open>x * (1 + 2 powr (- 53)) < real j\<close> have "x * (1 + 2 powr (- 53)) < real j' + 1"
          by simp
        from up [OF this] lo Suc show False by simp
      qed
    qed
    ultimately show "real j \<le> u * real n * (1 + 2 powr (- 53)) \<and> u * real n < real j + 1"
      by (simp add: x_def)
  qed
qed

lemma to_double_eval:
  assumes "0 < x" "2 powr real_of_int e \<le> x" "x < 2 powr (real_of_int e + 1)" "- 1022 \<le> e"
  shows "to_double x =
           real_of_int (round_half_even (x * 2 powr (52 - real_of_int e))) * 2 powr (real_of_int e - 52)"
proof -
  have "exponent x = e"
    using assms floor_log2 [of x e] by (simp add: exponent_def)
  then have "ulp x = 2 powr (real_of_int e - 52)" by (simp add: ulp_def)
  moreover have "x / 2 powr (real_of_int e - 52) = x * 2 powr (52 - real_of_int e)"
    by (simp add: powr_diff field_simps)
  ultimately show ?thesis by (simp add: to_double_def)
qed

lemma depth_pos: "0 < depth (eloToParams elo)"
  by (simp add: eloToParams_def)

lemma blunderMove_eq:
  assumes U: "undo_restores chess"
  shows "blunderMove chess game perspective (moves chess game) u =
     (scored_move (js_sort (\<lambda>a b. sub (scored_score b) (scored_score a))
        (map (shallowEntry chess game perspective) (moves chess game))
        ! random_index u (min 4 (length (moves chess game)))), game)"
proof -
  have len: "length (js_sort (\<lambda>a b. sub (scored_score b) (scored_score a))
        (map (shallowEntry chess game perspective) (moves chess game))) = length (moves chess game)"
    by (metis js_sort_mset length_map size_mset)
  show ?thesis
    using scoreMoves_eq [OF U subset_refl, of game perspective "[]"]
    by (simp add: blunderMove_def Let_def len)
qed


lemma to_double_literal_0_7: "to_double (7 / 10) = 3152519739159347 / 2 ^ 52"
  using to_double_eval [of "7 / 10" "- 1"]
  by (simp add: powr_minus round_half_even_def)

lemma random_index_rounds_up: "random_index (6004799503160661 / 2 ^ 53) 3 = 2"
  using to_double_eval [of "6004799503160661 / 2 ^ 53 * 3" 0]
  by (simp add: random_index_def powr_minus round_half_even_def)

lemma is_double_eighths: "is_double (1 / 8)" "is_double (5 / 8)"
  using to_double_eval [of "1 / 8" "- 3"] to_double_eval [of "5 / 8" "- 1"]
  by (simp_all add: is_double_def powr_minus round_half_even_def)

lemma random_index_5_8: "random_index (5 / 8) 2 = 1"
proof -
  have e: "to_double (5 / 4) = 5 / 4"
    using to_double_eval [of "5 / 4" 0] by (simp add: powr_minus round_half_even_def)
  show ?thesis by (simp add: random_index_def e)
qed

text \<open>
  The rounding is visible in the script. The literal \<open>0.6666666666666666\<close> is a double
  just below \<open>2 / 3\<close> whose product with 3 rounds up to 2, so the index is 2. The literal
  \<open>0.7\<close> is a double below \<open>7 / 10\<close>: a first draw equal to it is not below
  \<open>randomness = 0.7\<close>, and the best move \<open>exd5\<close> of the search is played.
\<close>

lemma to_double_literal_0_6666:
  "to_double (6666666666666666 / 10 ^ 16) = 6004799503160661 / 2 ^ 53"
  using to_double_eval [of "6666666666666666 / 10 ^ 16" "- 1"]
  by (simp add: powr_minus round_half_even_def)

lemma makeAIMove_draw_at_randomness:
  "makeAIMove toy [] 500 ''white'' (\<lambda>i. 3152519739159347 / 2 ^ 52) = [''exd5'']"
  by (simp add: makeAIMove_def getBestMove_def blunderMove_def eloToParams_def random_index_def
        negamax.simps switchColor_def sub_def toy_eval to_double_literal_0_7)

text \<open>
  C7. Assume that \<open>undo\<close> takes back every listed move, that the engine reports every
  position without moves as over, and that no legal move is the empty string. When the game
  is not over and the first draw is below the double \<open>randomness\<close>, \<open>makeAIMove\<close> takes the
  blunder branch. Let \<open>ranked\<close> be the legal moves with their shallow scores, each the
  evaluation of the position after the move, from the perspective of the AI colour, with
  the move taken back, in the order of the script's stable sort by descending score; this
  list does not depend on the draws. Let \<open>k = min(4, count)\<close> and let \<open>i\<close> be \<open>Math.floor\<close>
  of the double product of the second draw \<open>u\<close> and \<open>k\<close>. Then the move played is the entry
  of rank \<open>i\<close> of \<open>ranked\<close>; \<open>i\<close> is below \<open>k\<close>; no entry ranked \<open>k\<close> or later has a higher
  shallow score than the move played; and the rank is chosen by the interval of length
  \<open>1 / k\<close> in which the draw lies, up to the rounding of the product: \<open>i = j\<close> whenever
  \<open>j \<le> u * k\<close> and \<open>u * k * (1 + 2 powr (- 53)) < j + 1\<close>, and \<open>i = j\<close> only if
  \<open>j \<le> u * k * (1 + 2 powr (- 53))\<close> and \<open>u * k < j + 1\<close>.
\<close>

theorem blunder_branch_top_four:
  "undo_restores chess \<and> reports_terminal chess \<and> \<not> game_over chess game \<and>
   [] \<notin> set (moves chess game) \<and>
   random 0 < to_double (randomness (eloToParams elo)) \<and>
   is_double (random 1) \<and> 0 \<le> random 1 \<and> random 1 < 1 \<longrightarrow>
   (let ms = moves chess game;
        perspective = (if aiSide = ''white'' then ''w'' else ''b'');
        k = min 4 (length ms);
        ranked = js_sort (\<lambda>a b. sub (scored_score b) (scored_score a))
                   (map (shallowEntry chess game perspective) ms);
        i = random_index (random 1) k
    in makeAIMove chess game elo aiSide random = move chess game (scored_move (ranked ! i)) \<and>
       i < k \<and> k \<le> length ranked \<and>
       scored_move (ranked ! i) \<in> set ms \<and>
       mset ranked = mset (map (shallowEntry chess game perspective) ms) \<and>
       sorted_wrt (\<lambda>a b. scored_score b \<le> scored_score a) ranked \<and>
       (\<forall>j. k \<le> j \<and> j < length ranked \<longrightarrow>
          scored_score (ranked ! j) \<le> scored_score (ranked ! i)) \<and>
       (\<forall>j. (real j \<le> random 1 * real k \<and>
               random 1 * real k * (1 + 2 powr (- 53)) < real j + 1 \<longrightarrow> i = j) \<and>
            (i = j \<longrightarrow> real j \<le> random 1 * real k * (1 + 2 powr (- 53)) \<and>
               random 1 * real k < real j + 1)))"
proof
  assume H: "undo_restores chess \<and> reports_terminal chess \<and> \<not> game_over chess game \<and>
   [] \<notin> set (moves chess game) \<and>
   random 0 < to_double (randomness (eloToParams elo)) \<and>
   is_double (random 1) \<and> 0 \<le> random 1 \<and> random 1 < 1"
  define persp where "persp = (if aiSide = ''white'' then ''w'' else ''b'')"
  define ms where "ms = moves chess game"
  define k where "k = min 4 (length ms)"
  define ranked where
    "ranked = js_sort (\<lambda>a b. sub (scored_score b) (scored_score a))
                (map (shallowEntry chess game persp) ms)"
  define i where "i = random_index (random 1) k"
  from H have ms_ne: "ms \<noteq> []"
    by (auto simp: ms_def reports_terminal_def)
  then have k_pos: "0 < k" by (simp add: k_def)
  have "real k \<le> 4" by (simp add: k_def)
  also have "(4::real) \<le> 2 powr 53" by simp
  finally have k_small: "real k \<le> 2 powr 53" .
  have perm: "mset ranked = mset (map (shallowEntry chess game persp) ms)"
    by (simp add: ranked_def js_sort_mset)
  then have len: "length ranked = length ms"
    by (metis length_map size_mset)
  then have k_len: "k \<le> length ranked" by (simp add: k_def)
  have sorted: "sorted_wrt (\<lambda>a b. scored_score b \<le> scored_score a) ranked"
    unfolding ranked_def
    by (rule js_sort_desc) (auto simp: shallowEntry_def shallowScore_Fin)
  from H k_pos have i_less: "i < k"
    by (simp add: i_def random_index_less)
  then have i_len: "i < length ranked" using k_len by simp
  have uniform: "\<forall>j. (real j \<le> random 1 * real k \<and>
               random 1 * real k * (1 + 2 powr (- 53)) < real j + 1 \<longrightarrow> i = j) \<and>
            (i = j \<longrightarrow> real j \<le> random 1 * real k * (1 + 2 powr (- 53)) \<and>
               random 1 * real k < real j + 1)"
    unfolding i_def
    using H k_pos k_small random_index_interval [of "random 1" k] by blast
  have top: "\<forall>j. k \<le> j \<and> j < length ranked \<longrightarrow>
      scored_score (ranked ! j) \<le> scored_score (ranked ! i)"
    using sorted i_less by (auto simp: sorted_wrt_iff_nth_less)
  have "ranked ! i \<in> set ranked" using i_len by simp
  also have "set ranked = set (map (shallowEntry chess game persp) ms)"
    using perm by (metis set_mset_mset)
  finally have legal: "scored_move (ranked ! i) \<in> set ms"
    by (auto simp: shallowEntry_def)
  from H ms_ne obtain r m where best:
    "fst (getBestMove chess game (depth (eloToParams elo)) persp) = Some r"
    "best_move r = Some m" "m \<in> set ms"
    using getBestMove_some [of chess game "depth (eloToParams elo)" persp]
    by (auto simp: ms_def)
  from H have st: "snd (getBestMove chess game (depth (eloToParams elo)) persp) = game"
    by (simp add: getBestMove_state)
  from best(3) H have "m \<noteq> []" by (auto simp: ms_def)
  with best st H ms_ne
  have "makeAIMove chess game elo aiSide random =
          move chess game (fst (blunderMove chess game persp ms (random 1)))"
    using blunderMove_eq [of chess game persp "random 1"]
    by (simp add: makeAIMove_def Let_def case_prod_beta persp_def [symmetric] ms_def [symmetric])
  also have "fst (blunderMove chess game persp ms (random 1)) = scored_move (ranked ! i)"
    using H blunderMove_eq [of chess game persp "random 1"]
    by (simp add: ms_def ranked_def i_def k_def)
  finally have played: "makeAIMove chess game elo aiSide random =
      move chess game (scored_move (ranked ! i))" .
  show "let ms = moves chess game;
        perspective = (if aiSide = ''white'' then ''w'' else ''b'');
        k = min 4 (length ms);
        ranked = js_sort (\<lambda>a b. sub (scored_score b) (scored_score a))
                   (map (shallowEntry chess game perspective) ms);
        i = random_index (random 1) k
    in makeAIMove chess game elo aiSide random = move chess game (scored_move (ranked ! i)) \<and>
       i < k \<and> k \<le> length ranked \<and>
       scored_move (ranked ! i) \<in> set ms \<and>
       mset ranked = mset (map (shallowEntry chess game perspective) ms) \<and>
       sorted_wrt (\<lambda>a b. scored_score b \<le> scored_score a) ranked \<and>
       (\<forall>j. k \<le> j \<and> j < length ranked \<longrightarrow>
          scored_score (ranked ! j) \<le> scored_score (ranked ! i)) \<and>
       (\<forall>j. (real j \<le> random 1 * real k \<and>
               random 1 * real k * (1 + 2 powr (- 53)) < real j + 1 \<longrightarrow> i = j) \<and>
            (i = j \<longrightarrow> real j \<le> random 1 * real k * (1 + 2 powr (- 53)) \<and>
               random 1 * real k < real j + 1))"
    unfolding Let_def
    using played i_less k_len legal perm sorted top uniform
    unfolding persp_def ms_def k_def i_def ranked_def
    by (intro conjI) assumption+
qed

theorem blunder_branch_top_four_witness:
  "undo_restores toy \<and> reports_terminal toy \<and> \<not> game_over toy [] \<and>
   [] \<notin> set (moves toy []) \<and>
   (1 / 8 :: real) < to_double (randomness (eloToParams 500)) \<and>
   is_double (5 / 8) \<and> (0::real) \<le> 5 / 8 \<and> (5 / 8 :: real) < 1 \<and>
   js_sort (\<lambda>a b. sub (scored_score b) (scored_score a))
     (map (shallowEntry toy [] ''w'') (moves toy [])) =
     [\<lparr>scored_move = ''exd5'', scored_score = Fin 100\<rparr>,
      \<lparr>scored_move = ''e4'', scored_score = Fin 0\<rparr>] \<and>
   random_index (5 / 8) (min 4 (length (moves toy []))) = 1 \<and>
   makeAIMove toy [] 500 ''white'' (\<lambda>i. if i = 0 then 1 / 8 else 5 / 8) = [''e4'']"
proof -
  have ms: "moves toy [] = [''e4'', ''exd5'']"
    by (simp add: toy_def toy_moves_def)
  have ranked: "js_sort (\<lambda>a b. sub (scored_score b) (scored_score a))
     [shallowEntry toy [] ''w'' ''e4'', shallowEntry toy [] ''w'' ''exd5''] =
     [\<lparr>scored_move = ''exd5'', scored_score = Fin 100\<rparr>,
      \<lparr>scored_move = ''e4'', scored_score = Fin 0\<rparr>]"
    by (simp add: shallowEntry_def shallowScore_def sub_def toy_eval)
  have idx: "random_index (5 / 8) (Suc (Suc 0)) = 1"
    using random_index_5_8 by (simp add: numeral_2_eq_2)
  have pre: "\<not> game_over toy []"
    "(1 / 8 :: real) < to_double (randomness (eloToParams 500))"
    by (simp_all add: toy_def eloToParams_def to_double_literal_0_7)
  have mv: "move toy [] ''e4'' = [''e4'']"
    by (simp add: toy_def)
  show ?thesis
    using blunder_branch_top_four
      [of toy "[]" "\<lambda>i. if i = 0 then 1 / 8 else 5 / 8" 500 "''white''"]
      toy_undo_restores toy_reports_terminal pre is_double_eighths(2)
    by (simp add: Let_def ms ranked idx mv)
qed

section \<open>The perspective in the recursion\<close>

text \<open>
  C1. The recursive call of \<open>negamax\<close> passes \<open>perspectiveColor\<close> on unchanged, where
  the specification has the opposite perspective: \<open>switchColor\<close> is applied in
  \<open>getBestMove\<close> only. In the small engine White, to move, can win a pawn with \<open>exd5\<close>,
  after which the evaluation is \<open>100\<close>. Searched to depth 1 from White's perspective the
  position is worth \<open>100\<close> when the children are scored from the opposite perspective, and
  \<open>negamax\<close> returns \<open>0\<close>: it scores both replies from White's perspective and negates
  them. After \<open>e4\<close> Black mates with \<open>dxe4\<close>; searched to depth 1 from Black's perspective,
  as \<open>getBestMove\<close> does for White with \<open>maxDepth = 2\<close>, that position is worth \<open>999999\<close>
  with alternating perspectives, and \<open>negamax\<close> returns \<open>0\<close>.
\<close>

theorem negamax_perspective_not_switched:
  "negamax toy [] 1 NegInf PosInf ''w'' = (Fin 0, []) \<and>
   negamax_alternating toy [] 1 NegInf PosInf ''w'' = (Fin 100, []) \<and>
   evaluateBoard toy [''exd5''] = Fin 100 \<and>
   negamax toy [''e4''] 1 NegInf PosInf ''b'' = (Fin 0, [''e4'']) \<and>
   negamax_alternating toy [''e4''] 1 NegInf PosInf ''b'' = (Fin 999999, [''e4''])"
  by (simp add: negamax.simps switchColor_def toy_eval)

end
